theory Spec2Isabelle
  imports Main "HOL-Library.Word" "HOL-Library.AList" "HOL-Library.Sublist"
begin

section \<open>Strings\<close>

text \<open>
  A JavaScript string is a sequence of 16-bit code units. \<open>js\<close> turns an ASCII literal
  into such a sequence, \<open>CU\<close> a single character.
\<close>

type_synonym jschar = "16 word"
type_synonym jsstring = "jschar list"

abbreviation CU :: "char \<Rightarrow> jschar" where
  "CU c \<equiv> of_char c"

definition js :: "string \<Rightarrow> jsstring" where
  "js s = map of_char s"

abbreviation DQUOTE :: jschar where "DQUOTE \<equiv> 0x22"
abbreviation BACKSLASH :: jschar where "BACKSLASH \<equiv> 0x5C"
abbreviation SLASH :: jschar where "SLASH \<equiv> CU (CHR ''/'')"
abbreviation AT :: jschar where "AT \<equiv> CU (CHR ''@'')"
abbreviation COLON :: jschar where "COLON \<equiv> CU (CHR '':'')"
abbreviation COMMA :: jschar where "COMMA \<equiv> CU (CHR '','')"
abbreviation DOLLAR :: jschar where "DOLLAR \<equiv> CU (CHR ''$'')"

section \<open>rebaseLockfile\<close>

subsection \<open>The pattern\<close>

text \<open>
  \<^verbatim>\<open>/[^"/]@(?:file:)?((?:\.\/|\.\.\/).*?)[":,]/gm\<close>, matched by backtracking as the
  regular expression engine does. Every function takes the text from the current position
  on and returns the text captured by group 1 together with the text left after the match.
\<close>

text \<open>The dot matches every code unit but the four line terminators.\<close>

definition isLineTerminator :: "jschar \<Rightarrow> bool" where
  "isLineTerminator c \<longleftrightarrow> c = 0x0A \<or> c = 0x0D \<or> c = 0x2028 \<or> c = 0x2029"

text \<open>The class \<^verbatim>\<open>[":,]\<close> that ends a match.\<close>

definition isTerminator :: "jschar \<Rightarrow> bool" where
  "isTerminator c \<longleftrightarrow> c = DQUOTE \<or> c = COLON \<or> c = COMMA"

text \<open>
  \<^verbatim>\<open>.*?[":,]\<close>: the lazy star first tries to end the match here, and only then takes
  one more code unit, which must not be a line terminator.
\<close>

fun lazyDots :: "jsstring \<Rightarrow> (jsstring \<times> jsstring) option" where
  "lazyDots [] = None"
| "lazyDots (c # cs) =
     (if isTerminator c then Some ([], cs)
      else if isLineTerminator c then None
      else (case lazyDots cs of
              None \<Rightarrow> None
            | Some (body, rest) \<Rightarrow> Some (c # body, rest)))"

text \<open>One alternative of \<^verbatim>\<open>(?:\.\/|\.\.\/)\<close> followed by the rest of the pattern.\<close>

definition pathWith :: "jsstring \<Rightarrow> jsstring \<Rightarrow> (jsstring \<times> jsstring) option" where
  "pathWith p s =
     (if prefix p s
      then (case lazyDots (drop (length p) s) of
              None \<Rightarrow> None
            | Some (body, rest) \<Rightarrow> Some (p @ body, rest))
      else None)"

text \<open>Group 1: the alternatives in the order of the pattern, the second tried when the first fails.\<close>

definition relativePath :: "jsstring \<Rightarrow> (jsstring \<times> jsstring) option" where
  "relativePath s =
     (case pathWith (js ''./'') s of
        Some r \<Rightarrow> Some r
      | None \<Rightarrow> pathWith (js ''../'') s)"

text \<open>\<^verbatim>\<open>(?:file:)?\<close> is greedy: with the prefix first, without it when that fails.\<close>

definition fileRef :: "jsstring \<Rightarrow> (jsstring \<times> jsstring) option" where
  "fileRef s =
     (case (if prefix (js ''file:'') s then relativePath (drop 5 s) else None) of
        Some r \<Rightarrow> Some r
      | None \<Rightarrow> relativePath s)"

text \<open>The whole pattern at one position: \<^verbatim>\<open>[^"/]\<close>, then \<^verbatim>\<open>@\<close>, then the rest.\<close>

fun fileVersionMatcher :: "jsstring \<Rightarrow> (jsstring \<times> jsstring) option" where
  "fileVersionMatcher (x # a # s) =
     (if x \<noteq> DQUOTE \<and> x \<noteq> SLASH \<and> a = AT then fileRef s else None)"
| "fileVersionMatcher _ = None"

subsection \<open>The loop over \<open>fileVersionMatcher.exec\<close>\<close>

text \<open>
  \<open>exec\<close> looks for the first position at or after \<open>lastIndex\<close> where the pattern
  matches and leaves \<open>lastIndex\<close> behind the match; the loop ends when it finds none.
  \<open>execAll\<close> takes the text from \<open>lastIndex\<close> on and returns \<open>match[1]\<close> of every
  round. A match is never empty, so the loop ends.
\<close>

function execAll :: "jsstring \<Rightarrow> jsstring list" where
  "execAll [] = []"
| "execAll (c # cs) =
     (case fileVersionMatcher (c # cs) of
        Some (cap, rest) \<Rightarrow> cap # execAll rest
      | None \<Rightarrow> execAll cs)"
  by pat_completeness auto
termination
proof (relation "measure length")
  show "wf (measure length)" by simp
next
  fix c :: jschar and cs :: jsstring
  show "(cs, c # cs) \<in> measure length" by simp
next
  fix c :: jschar and cs x2 cap rest
  assume m: "fileVersionMatcher (c # cs) = Some x2" and x: "(cap, rest) = x2"
  have dots: "length r < length s" if "lazyDots s = Some (b, r)" for s b r
    using that by (induction s arbitrary: b) (auto split: if_splits option.splits)
  have path: "length r < length s" if "pathWith p s = Some (b, r)" for p s b r
  proof -
    from that obtain b' where "lazyDots (drop (length p) s) = Some (b', r)"
      by (auto simp: pathWith_def split: if_splits option.splits)
    from dots [OF this] show ?thesis by simp
  qed
  have rel: "length r < length s" if "relativePath s = Some (b, r)" for s b r
    using that path by (auto simp: relativePath_def split: option.splits)
  have ref: "length r < length s" if "fileRef s = Some (b, r)" for s b r
  proof -
    from that have "relativePath (drop 5 s) = Some (b, r) \<or> relativePath s = Some (b, r)"
      by (auto simp: fileRef_def split: option.splits if_splits)
    then show ?thesis
    proof
      assume "relativePath (drop 5 s) = Some (b, r)"
      from rel [OF this] show ?thesis by simp
    next
      assume "relativePath s = Some (b, r)"
      from rel [OF this] show ?thesis .
    qed
  qed
  from m x have "fileVersionMatcher (c # cs) = Some (cap, rest)" by simp
  then obtain s where "fileRef s = Some (cap, rest)" "length s < length (c # cs)"
    by (cases cs) (auto split: if_splits)
  with ref [of s cap rest] show "(rest, c # cs) \<in> measure length" by simp
qed

record replacement =
  oldRef :: jsstring
  newRef :: jsstring

text \<open>\<^verbatim>\<open>_.replace(s, /\\/g, '/')\<close>: every backslash becomes a slash.\<close>

definition replaceBackslashes :: "jsstring \<Rightarrow> jsstring" where
  "replaceBackslashes s = map (\<lambda>c. if c = BACKSLASH then SLASH else c) s"

definition replacements :: "jsstring \<Rightarrow> jsstring \<Rightarrow> replacement list" where
  "replacements pathToPackageRoot lockfile =
     map (\<lambda>m. \<lparr>oldRef = m, newRef = replaceBackslashes (pathToPackageRoot @ [SLASH] @ m)\<rparr>)
       (execAll lockfile)"

subsection \<open>\<open>_.replace\<close> with a string pattern\<close>

text \<open>
  \<^verbatim>\<open>_.replace(string, pattern, replacement)\<close> is \<open>String.prototype.replace\<close>. With a
  string as pattern it rewrites the first occurrence only, and the replacement is a
  template: \<^verbatim>\<open>$$\<close> stands for a dollar sign, \<^verbatim>\<open>$&\<close> for the matched text,
  \<^verbatim>\<open>$`\<close> for the text before the match and \<^verbatim>\<open>$'\<close> for the text after it. There
  are no capture groups, so every other dollar sign stands for itself.
\<close>

fun getSubstitution :: "jsstring \<Rightarrow> jsstring \<Rightarrow> jsstring \<Rightarrow> jsstring \<Rightarrow> jsstring" where
  "getSubstitution matched preceding following (c # d # r) =
     (if c = DOLLAR \<and> d = DOLLAR then DOLLAR # getSubstitution matched preceding following r
      else if c = DOLLAR \<and> d = CU (CHR ''&'') then matched @ getSubstitution matched preceding following r
      else if c = DOLLAR \<and> d = 0x60 then preceding @ getSubstitution matched preceding following r
      else if c = DOLLAR \<and> d = 0x27 then following @ getSubstitution matched preceding following r
      else c # getSubstitution matched preceding following (d # r))"
| "getSubstitution matched preceding following r = r"

text \<open>The text before and after the first occurrence of the pattern, if there is one.\<close>

fun splitAtFirst :: "jsstring \<Rightarrow> jsstring \<Rightarrow> (jsstring \<times> jsstring) option" where
  "splitAtFirst pat [] = (if pat = [] then Some ([], []) else None)"
| "splitAtFirst pat (c # cs) =
     (if prefix pat (c # cs) then Some ([], drop (length pat) (c # cs))
      else (case splitAtFirst pat cs of
              None \<Rightarrow> None
            | Some (preceding, following) \<Rightarrow> Some (c # preceding, following)))"

definition stringReplace :: "jsstring \<Rightarrow> jsstring \<Rightarrow> jsstring \<Rightarrow> jsstring" where
  "stringReplace string pat replacement =
     (case splitAtFirst pat string of
        None \<Rightarrow> string
      | Some (preceding, following) \<Rightarrow>
          preceding @ getSubstitution pat preceding following replacement @ following)"

subsection \<open>The function\<close>

definition rebaseLockfile :: "jsstring \<Rightarrow> jsstring \<Rightarrow> jsstring" where
  "rebaseLockfile pathToPackageRoot lockfile =
     foldl (\<lambda>acc r. stringReplace acc (oldRef r) (newRef r)) lockfile
       (replacements pathToPackageRoot lockfile)"

section \<open>getProdDependencies\<close>

subsection \<open>Values\<close>

text \<open>
  A value that \<open>JSON.parse\<close> returns is described by what the code can see of it.
  \<open>Null\<close> is \<^verbatim>\<open>null\<close>: reading a property of it throws. Every other value is an
  \<open>Entry\<close> with its fields \<^verbatim>\<open>value\<close>, \<^verbatim>\<open>locator\<close> and \<^verbatim>\<open>children\<close>, each of which
  may be missing, and a flag that tells whether the value holds anything else: further
  keys of an object, the elements of an array, the characters of a string. So \<^verbatim>\<open>{}\<close>, a
  number and a boolean are \<open>Entry None None NoChildren False\<close>, and
  \<^verbatim>\<open>{"type":"info"}\<close> and \<^verbatim>\<open>"abc"\<close> are \<open>Entry None None NoChildren True\<close>.

  The field \<^verbatim>\<open>children\<close> is missing (\<open>NoChildren\<close>), \<^verbatim>\<open>null\<close> (\<open>NullChildren\<close>), a
  number, boolean, string or array (\<open>OtherChildren\<close>, with its truth value: such a value
  has neither a \<^verbatim>\<open>Version\<close> nor \<^verbatim>\<open>Dependencies\<close>), or an object with the fields
  \<^verbatim>\<open>Version\<close> and \<^verbatim>\<open>Dependencies\<close>, each of which may be missing.

  The fields \<^verbatim>\<open>value\<close>, \<^verbatim>\<open>locator\<close> and \<^verbatim>\<open>Version\<close> are strings and
  \<^verbatim>\<open>Dependencies\<close> is an array where they are present; other JSON types in these four
  places are outside the model.
\<close>

datatype entry =
  Null
| Entry (entry_value: "jsstring option") (entry_locator: "jsstring option")
    (entry_children: children) (entry_other: bool)
and children =
  NoChildren
| NullChildren
| OtherChildren bool
| Children (Version: "jsstring option") (Dependencies: "entry list option")

text \<open>
  What a \<open>version\<close> field can hold: \<^verbatim>\<open>undefined\<close>, a string, or a member that the
  object \<open>versions\<close> inherits from \<open>Object.prototype\<close>.
\<close>

datatype jsval = Undefined | Str jsstring | Inherited jsstring

datatype node = Node (version: jsval) (nodeDependencies: "(jsstring \<times> node) list")

record DependencyGraph =
  problems :: "jsstring list"
  dependencies :: "(jsstring \<times> node) list"

record processOutput =
  stdout :: jsstring
  stderr :: jsstring

text \<open>
  Modelled from the spec: the class \<open>Utils.SpawnError\<close>, which is not among the sources.
  It is the error of a process that exited with a code other than zero and carries the
  stdout and the stderr of the process. The promise can also be rejected with any other
  error of the process runner, or with the \<open>TypeError\<close> of a property read on
  \<^verbatim>\<open>undefined\<close> or \<^verbatim>\<open>null\<close>.
\<close>

datatype error = SpawnError processOutput | OtherError | TypeError

subsection \<open>Plain objects\<close>

text \<open>
  \<open>versions\<close> and the accumulator \<open>obj\<close> start as \<^verbatim>\<open>{}\<close>. An object is the list of its
  own properties in the order they were added (JavaScript enumerates keys that are array
  indices first; no property below depends on the order). An assignment to the key
  \<^verbatim>\<open>__proto__\<close> runs the setter inherited from \<open>Object.prototype\<close> and adds no property;
  a read of a key the object does not have falls through to \<open>Object.prototype\<close>, whose
  members in Node.js are listed in \<open>objectPrototypeKeys\<close>.
\<close>

definition objectPrototypeKeys :: "jsstring list" where
  "objectPrototypeKeys =
     [js ''constructor'', js ''__defineGetter__'', js ''__defineSetter__'',
      js ''hasOwnProperty'', js ''__lookupGetter__'', js ''__lookupSetter__'',
      js ''isPrototypeOf'', js ''propertyIsEnumerable'', js ''toString'', js ''valueOf'',
      js ''__proto__'', js ''toLocaleString'']"

definition objectSet :: "(jsstring \<times> 'a) list \<Rightarrow> jsstring \<Rightarrow> 'a \<Rightarrow> (jsstring \<times> 'a) list" where
  "objectSet obj k v = (if k = js ''__proto__'' then obj else AList.update k v obj)"

definition versionsGet :: "(jsstring \<times> jsval) list \<Rightarrow> jsstring \<Rightarrow> jsval" where
  "versionsGet versions k =
     (case map_of versions k of
        Some v \<Rightarrow> v
      | None \<Rightarrow> if k \<in> set objectPrototypeKeys then Inherited k else Undefined)"

text \<open>A property key is a string: \<^verbatim>\<open>undefined\<close> becomes \<^verbatim>\<open>"undefined"\<close>.\<close>

definition propertyKey :: "jsstring option \<Rightarrow> jsstring" where
  "propertyKey v = (case v of None \<Rightarrow> js ''undefined'' | Some s \<Rightarrow> s)"

text \<open>lodash's \<open>toString\<close>, which \<open>_.split\<close> and \<open>_.startsWith\<close> apply to their argument.\<close>

definition lodashToString :: "jsstring option \<Rightarrow> jsstring" where
  "lodashToString v = (case v of None \<Rightarrow> [] | Some s \<Rightarrow> s)"

definition toVal :: "jsstring option \<Rightarrow> jsval" where
  "toVal v = (case v of None \<Rightarrow> Undefined | Some s \<Rightarrow> Str s)"

subsection \<open>The name of a module\<close>

text \<open>\<^verbatim>\<open>string.split(separator)\<close> for a separator of one code unit.\<close>

fun splitOn :: "jschar \<Rightarrow> jsstring \<Rightarrow> jsstring list" where
  "splitOn sep [] = [[]]"
| "splitOn sep (c # cs) =
     (if c = sep then [] # splitOn sep cs
      else (case splitOn sep cs of
              [] \<Rightarrow> [[c]]
            | piece # pieces \<Rightarrow> (c # piece) # pieces))"

text \<open>
  Lines 86 to 92: the locator is split at \<^verbatim>\<open>@\<close>; for a scoped module the empty first
  piece is spliced out and the \<^verbatim>\<open>@\<close> put back in front of the next; the first piece is
  the key.
\<close>

definition moduleName :: "jsstring option \<Rightarrow> jsstring" where
  "moduleName locator =
     (let splitModule = splitOn AT (lodashToString locator);
          splitModule =
            (if prefix [AT] (lodashToString locator)
             then (case tl splitModule of
                     [] \<Rightarrow> [js ''@undefined'']
                   | m # ms \<Rightarrow> (AT # m) # ms)
             else splitModule)
      in propertyKey (case splitModule of [] \<Rightarrow> None | m # ms \<Rightarrow> Some m))"

subsection \<open>The index of versions (lines 76 to 80)\<close>

text \<open>\<^verbatim>\<open>children.Version\<close>, which throws when \<^verbatim>\<open>children\<close> is \<^verbatim>\<open>undefined\<close> or \<^verbatim>\<open>null\<close>.\<close>

fun childrenVersion :: "children \<Rightarrow> error + jsstring option" where
  "childrenVersion NoChildren = Inl TypeError"
| "childrenVersion NullChildren = Inl TypeError"
| "childrenVersion (OtherChildren truthy) = Inr None"
| "childrenVersion (Children ver deps) = Inr ver"

text \<open>Line 79: \<^verbatim>\<open>versions[item.value] = item.children.Version\<close>.\<close>

fun indexItem :: "(jsstring \<times> jsval) list \<Rightarrow> entry \<Rightarrow> error + (jsstring \<times> jsval) list" where
  "indexItem versions Null = Inl TypeError"
| "indexItem versions (Entry v l c other) =
     (case childrenVersion c of
        Inl e \<Rightarrow> Inl e
      | Inr ver \<Rightarrow> Inr (objectSet versions (propertyKey v) (toVal ver)))"

fun indexItems :: "(jsstring \<times> jsval) list \<Rightarrow> entry list \<Rightarrow> error + (jsstring \<times> jsval) list" where
  "indexItems versions [] = Inr versions"
| "indexItems versions (item # items) =
     (case indexItem versions item of
        Inl e \<Rightarrow> Inl e
      | Inr versions' \<Rightarrow> indexItems versions' items)"

subsection \<open>\<open>convertValues\<close> (lines 82 to 99)\<close>

datatype path = PathValue | PathLocator

text \<open>\<^verbatim>\<open>data[path]\<close>, where \<open>path\<close> is \<^verbatim>\<open>'value'\<close> or \<^verbatim>\<open>'locator'\<close>.\<close>

fun dataAt :: "entry \<Rightarrow> path \<Rightarrow> error + jsstring option" where
  "dataAt Null p = Inl TypeError"
| "dataAt (Entry v l c other) PathValue = Inr v"
| "dataAt (Entry v l c other) PathLocator = Inr l"

text \<open>
  \<open>reduceValues\<close> is \<^verbatim>\<open>_.reduce(values, ..., obj)\<close>, \<open>convertData\<close> one call of its
  callback, and \<open>convertChildren\<close> the expression
  \<^verbatim>\<open>data.children ? convertValues(data.children.Dependencies, 'locator') : {}\<close>.
  \<open>_.reduce\<close> over \<^verbatim>\<open>undefined\<close> returns the accumulator, so a \<^verbatim>\<open>children\<close> that is
  true but has no \<^verbatim>\<open>Dependencies\<close> gives \<^verbatim>\<open>{}\<close> as one that is false does.
\<close>

fun reduceValues :: "(jsstring \<times> jsval) list \<Rightarrow> path \<Rightarrow> (jsstring \<times> node) list \<Rightarrow> entry list
      \<Rightarrow> error + (jsstring \<times> node) list"
  and convertData :: "(jsstring \<times> jsval) list \<Rightarrow> path \<Rightarrow> (jsstring \<times> node) list \<Rightarrow> entry
      \<Rightarrow> error + (jsstring \<times> node) list"
  and convertChildren :: "(jsstring \<times> jsval) list \<Rightarrow> children
      \<Rightarrow> error + (jsstring \<times> node) list"
where
  "reduceValues versions p obj [] = Inr obj"
| "reduceValues versions p obj (data # values) =
     (case convertData versions p obj data of
        Inl e \<Rightarrow> Inl e
      | Inr obj' \<Rightarrow> reduceValues versions p obj' values)"
| "convertData versions p obj Null = Inl TypeError"
| "convertData versions p obj (Entry v l c other) =
     (case dataAt (Entry v l c other) p of
        Inl e \<Rightarrow> Inl e
      | Inr locator \<Rightarrow>
          (case convertChildren versions c of
             Inl e \<Rightarrow> Inl e
           | Inr deps \<Rightarrow>
               Inr (objectSet obj (moduleName locator)
                      (Node (versionsGet versions (propertyKey locator)) deps))))"
| "convertChildren versions NoChildren = Inr []"
| "convertChildren versions NullChildren = Inr []"
| "convertChildren versions (OtherChildren truthy) = Inr []"
| "convertChildren versions (Children ver None) = Inr []"
| "convertChildren versions (Children ver (Some values)) =
     reduceValues versions PathLocator [] values"

definition convertValues :: "(jsstring \<times> jsval) list \<Rightarrow> entry list \<Rightarrow> path
      \<Rightarrow> error + (jsstring \<times> node) list" where
  "convertValues versions values p = reduceValues versions p [] values"

text \<open>Lines 74 to 106: from the parsed values to the graph.\<close>

definition toGraph :: "entry list \<Rightarrow> error + DependencyGraph" where
  "toGraph parsedValues =
     (case indexItems [] parsedValues of
        Inl e \<Rightarrow> Inl e
      | Inr versions \<Rightarrow>
          (case convertValues versions parsedValues PathValue of
             Inl e \<Rightarrow> Inl e
           | Inr deps \<Rightarrow> Inr \<lparr>problems = [], dependencies = deps\<rparr>))"

subsection \<open>From the output of the process to the parsed values (lines 67 to 73)\<close>

text \<open>
  \<open>_.isEmpty\<close> holds of \<^verbatim>\<open>null\<close>, of a number, of a boolean, and of an object, array or
  string that holds nothing.
\<close>

fun isEmpty :: "entry \<Rightarrow> bool" where
  "isEmpty Null = True"
| "isEmpty (Entry None None NoChildren False) = True"
| "isEmpty (Entry v l c other) = False"

text \<open>
  Modelled from the spec: \<open>Utils.splitLines\<close>, which is not among the sources. The spec
  calls the output newline-delimited text that is split into lines.
\<close>

definition splitLines :: "jsstring \<Rightarrow> jsstring list" where
  "splitLines str = splitOn 0x0A str"

text \<open>
  Modelled from the spec: \<open>Utils.safeJsonParse\<close>, which is not among the sources. The spec
  has every line parsed on its own and a line that fails to parse discarded without an
  error: the failure becomes a value that \<open>_.isEmpty\<close> holds of. \<open>jsonParse\<close> stands for
  \<open>JSON.parse\<close> of the runtime, \<open>None\<close> for its \<open>SyntaxError\<close>.
\<close>

definition safeJsonParse :: "(jsstring \<Rightarrow> entry option) \<Rightarrow> jsstring \<Rightarrow> entry" where
  "safeJsonParse jsonParse str = (case jsonParse str of None \<Rightarrow> Null | Some v \<Rightarrow> v)"

definition parseLines :: "(jsstring \<Rightarrow> entry option) \<Rightarrow> jsstring \<Rightarrow> entry list" where
  "parseLines jsonParse out =
     (let lines = splitLines out;
          parsedLines = map (safeJsonParse jsonParse) lines
      in filter (\<lambda>line. \<not> isEmpty line) parsedLines)"

subsection \<open>The handler of a failed process (lines 41 to 65)\<close>

text \<open>The list \<open>ignoredYarnErrors\<close> of the source is empty; an element is its \<open>npmError\<close>.\<close>

definition ignoredYarnErrors :: "jsstring list" where
  "ignoredYarnErrors = []"

definition failedOn :: "jsstring list \<Rightarrow> jsstring list \<Rightarrow> bool" where
  "failedOn ignored errors =
     foldl (\<lambda>failed error.
              if failed then True
              else error \<noteq> [] \<and>
                   \<not> list_ex (\<lambda>ignoredError. prefix (js ''npm ERR! '' @ ignoredError) error) ignored)
       False errors"

fun catchHandler :: "error \<Rightarrow> error + jsstring" where
  "catchHandler (SpawnError err) =
     (let errors = splitOn 0x0A (stderr err);
          failed = failedOn ignoredYarnErrors errors
      in if \<not> failed \<and> stdout err \<noteq> [] then Inr (stdout err) else Inl (SpawnError err))"
| "catchHandler err = Inl err"

subsection \<open>The function\<close>

text \<open>
  \<open>spawned\<close> is how the promise of \<open>Utils.spawnProcess\<close> settled: rejected with an error
  or resolved with the output of the process.
\<close>

definition getProdDependencies ::
    "(jsstring \<Rightarrow> entry option) \<Rightarrow> error + processOutput \<Rightarrow> error + DependencyGraph" where
  "getProdDependencies jsonParse spawned =
     (case (case spawned of
              Inl err \<Rightarrow> catchHandler err
            | Inr processOutput \<Rightarrow> Inr (stdout processOutput)) of
        Inl err \<Rightarrow> Inl err
      | Inr out \<Rightarrow> toGraph (parseLines jsonParse out))"

section \<open>Notions the properties are stated with\<close>

subsection \<open>For rebaseLockfile\<close>

text \<open>
  The first occurrence of \<open>old\<close> in \<open>s\<close> is replaced by \<open>new\<close>, and \<open>s\<close> is left
  as it is when \<open>old\<close> does not occur in it.
\<close>

definition firstOccurrenceReplaced :: "jsstring \<Rightarrow> jsstring \<Rightarrow> jsstring \<Rightarrow> jsstring \<Rightarrow> bool" where
  "firstOccurrenceReplaced s old new s' \<longleftrightarrow>
     (if \<exists>pre post. s = pre @ old @ post
      then \<exists>pre post. s = pre @ old @ post \<and>
             (\<forall>pre' post'. s = pre' @ old @ post' \<longrightarrow> length pre \<le> length pre') \<and>
             s' = pre @ new @ post
      else s' = s)"

text \<open>The replacements are applied one after the other, each to the result of the one before.\<close>

fun appliedInOrder :: "jsstring \<Rightarrow> replacement list \<Rightarrow> jsstring \<Rightarrow> bool" where
  "appliedInOrder s [] s' \<longleftrightarrow> s' = s"
| "appliedInOrder s (r # rs) s' \<longleftrightarrow>
     (\<exists>u. firstOccurrenceReplaced s (oldRef r) (newRef r) u \<and> appliedInOrder u rs s')"

text \<open>
  The reading of the specification: a global substitution, which replaces every
  occurrence of the literal \<open>old\<close> from left to right.
\<close>

function replaceEvery :: "jsstring \<Rightarrow> jsstring \<Rightarrow> jsstring \<Rightarrow> jsstring" where
  "replaceEvery old new [] = []"
| "replaceEvery old new (c # cs) =
     (if old \<noteq> [] \<and> prefix old (c # cs)
      then new @ replaceEvery old new (drop (length old) (c # cs))
      else c # replaceEvery old new cs)"
  by pat_completeness auto
termination
  by (relation "measure (\<lambda>(old, new, s). length s)") auto

definition rebaseEveryOccurrence :: "jsstring \<Rightarrow> jsstring \<Rightarrow> jsstring" where
  "rebaseEveryOccurrence pathToPackageRoot lockfile =
     foldl (\<lambda>acc r. replaceEvery (oldRef r) (newRef r) acc) lockfile
       (replacements pathToPackageRoot lockfile)"

text \<open>
  The texts in which \<open>fileVersionMatcher\<close> matches somewhere, read off the pattern: a code
  unit other than \<^verbatim>\<open>"\<close> and \<^verbatim>\<open>/\<close>, an \<^verbatim>\<open>@\<close>, \<^verbatim>\<open>file:\<close> or nothing, \<^verbatim>\<open>./\<close> or
  \<^verbatim>\<open>../\<close>, code units of one line, and one of \<^verbatim>\<open>"\<close>, \<^verbatim>\<open>:\<close> and \<^verbatim>\<open>,\<close>.
\<close>

definition containsReference :: "jsstring \<Rightarrow> bool" where
  "containsReference lockfile \<longleftrightarrow>
     (\<exists>pre x f p body t post.
        lockfile = pre @ x # AT # f @ p @ body @ t # post \<and>
        x \<noteq> DQUOTE \<and> x \<noteq> SLASH \<and> (f = [] \<or> f = js ''file:'') \<and>
        (p = js ''./'' \<or> p = js ''../'') \<and>
        (\<forall>c \<in> set body. \<not> isLineTerminator c) \<and> isTerminator t)"

subsection \<open>For getProdDependencies\<close>

text \<open>
  \<open>data\<close> is the last of \<open>values\<close> whose module name is \<open>k\<close>, where the name is taken from
  the field \<open>p\<close> of the entry.
\<close>

definition namedLast :: "path \<Rightarrow> jsstring \<Rightarrow> entry list \<Rightarrow> entry \<Rightarrow> bool" where
  "namedLast p k values data \<longleftrightarrow>
     (\<exists>preceding following locator.
        values = preceding @ data # following \<and>
        dataAt data p = Inr locator \<and> moduleName locator = k \<and>
        (\<forall>d \<in> set following. \<forall>loc. dataAt d p = Inr loc \<longrightarrow> moduleName loc \<noteq> k))"

text \<open>
  \<open>n\<close> is the node of the entry \<open>data\<close>: its version is what \<open>versions\<close> holds under the
  locator of the entry as it stands in the field \<open>p\<close>, and its dependencies are the
  converted \<^verbatim>\<open>children.Dependencies\<close> of the entry.
\<close>

definition nodeFor :: "(jsstring \<times> jsval) list \<Rightarrow> path \<Rightarrow> entry \<Rightarrow> node \<Rightarrow> bool" where
  "nodeFor versions p data n \<longleftrightarrow>
     (\<exists>v l c other locator deps.
        data = Entry v l c other \<and> dataAt data p = Inr locator \<and>
        convertChildren versions c = Inr deps \<and>
        n = Node (versionsGet versions (propertyKey locator)) deps)"

text \<open>
  The last of the top-level \<open>items\<close> whose \<^verbatim>\<open>value\<close> makes the key \<open>k\<close> has the
  \<^verbatim>\<open>children.Version\<close> \<open>ver\<close>: its \<^verbatim>\<open>children\<close> is an object with that \<^verbatim>\<open>Version\<close>, or
  a number, boolean, string or array, which has none, and \<open>ver\<close> is missing.
\<close>

definition recordedLast :: "jsstring \<Rightarrow> entry list \<Rightarrow> jsstring option \<Rightarrow> bool" where
  "recordedLast k items ver \<longleftrightarrow>
     (\<exists>preceding v l c other following.
        items = preceding @ Entry v l c other # following \<and>
        propertyKey v = k \<and>
        ((\<exists>deps. c = Children ver deps) \<or> (\<exists>truthy. c = OtherChildren truthy \<and> ver = None)) \<and>
        (\<forall>d \<in> set following. \<forall>v'. dataAt d PathValue = Inr v' \<longrightarrow> propertyKey v' \<noteq> k))"

text \<open>
  The levels of a listing and the mappings of the graph \<open>g\<close> that belong to them. The
  top level is the list of the parsed values, read with the field \<^verbatim>\<open>value\<close>, and its
  mapping is \<open>dependencies g\<close>. Below a level with the mapping \<open>obj\<close> there is, for a name
  \<open>k\<close>, the array \<^verbatim>\<open>children.Dependencies\<close> of the last entry of that name, read with the
  field \<^verbatim>\<open>locator\<close>, and its mapping is the \<open>dependencies\<close> of the node that \<open>obj\<close> holds
  under \<open>k\<close>.
\<close>

inductive madeFrom ::
    "entry list \<Rightarrow> DependencyGraph \<Rightarrow> path \<Rightarrow> entry list \<Rightarrow> (jsstring \<times> node) list \<Rightarrow> bool"
  for parsedValues :: "entry list" and g :: DependencyGraph
where
  top: "madeFrom parsedValues g PathValue parsedValues (dependencies g)"
| nested: "madeFrom parsedValues g p values obj \<Longrightarrow>
     namedLast p k values (Entry v l (Children ver (Some deps)) other) \<Longrightarrow>
     map_of obj k = Some (Node n depsn) \<Longrightarrow>
     madeFrom parsedValues g PathLocator deps depsn"



text \<open>A line of garbage: it is no JSON, \<open>JSON.parse\<close> throws on it.\<close>

definition garbage :: "(jsstring \<Rightarrow> entry option) \<Rightarrow> jsstring \<Rightarrow> bool" where
  "garbage jsonParse line \<longleftrightarrow> jsonParse line = None"

text \<open>The lines put together again, with a newline between one and the next.\<close>

fun joinLines :: "jsstring list \<Rightarrow> jsstring" where
  "joinLines [] = []"
| "joinLines [line] = line"
| "joinLines (line # lines) = line @ 0x0A # joinLines lines"

text \<open>
  The output with its empty lines and its lines of garbage removed. Every other line
  stays, also one that parses to \<^verbatim>\<open>null\<close> or to an empty object.
\<close>

definition withoutGarbage :: "(jsstring \<Rightarrow> entry option) \<Rightarrow> jsstring \<Rightarrow> jsstring" where
  "withoutGarbage jsonParse out =
     joinLines (filter (\<lambda>line. line \<noteq> [] \<and> \<not> garbage jsonParse line) (splitLines out))"

subsection \<open>Sample inputs\<close>

text \<open>A listing of two packages, the first of which depends on the second.\<close>

definition sampleValues :: "entry list" where
  "sampleValues =
     [Entry (Some (js ''a@npm:1.0.0'')) None
        (Children (Some (js ''1.0.0''))
           (Some [Entry None (Some (js ''@b/c@npm:2.0.0'')) NoChildren True])) False,
      Entry (Some (js ''@b/c@npm:2.0.0'')) None (Children (Some (js ''2.0.0'')) None) False]"

text \<open>
  A listing with the two locators of a scoped package: the workspace, which depends on
  the package, and the package itself.
\<close>

definition scopedValues :: "entry list" where
  "scopedValues =
     [Entry (Some (js ''root@workspace:.'')) None
        (Children (Some (js ''0.0.0''))
           (Some [Entry None (Some (js ''@scope/name@^1.0.0::locator=root%40workspace%3A.''))
                    NoChildren True])) False,
      Entry (Some (js ''@scope/name@1.0.0'')) None (Children (Some (js ''1.0.0'')) None) False]"

text \<open>What \<open>JSON.parse\<close> returns for the lines of the examples; every other line of the examples is no JSON.\<close>

definition sampleJsonParse :: "jsstring \<Rightarrow> entry option" where
  "sampleJsonParse line =
     (if line = js ''null'' then Some Null
      else if line = js ''{}'' then Some (Entry None None NoChildren False)
      else if line = js ''{\"type\":\"info\"}'' then Some (Entry None None NoChildren True)
      else if line = js ''{\"value\":\"a@npm:1.0.0\"}''
        then Some (Entry (Some (js ''a@npm:1.0.0'')) None NoChildren False)
      else if line = js ''{\"value\":\"a@npm:1.0.0\",\"children\":0}''
        then Some (Entry (Some (js ''a@npm:1.0.0'')) None (OtherChildren False) False)
      else if line = js ''{\"value\":\"a@npm:1.0.0\",\"children\":{}}''
        then Some (Entry (Some (js ''a@npm:1.0.0'')) None (Children None None) False)
      else if line = js ''{\"value\":\"a@npm:1.0.0\",\"children\":{\"Version\":\"1.0.0\"}}''
        then Some (Entry (Some (js ''a@npm:1.0.0'')) None
                     (Children (Some (js ''1.0.0'')) None) False)
      else None)"

text \<open>An output with a line of garbage, an entry, an empty line, \<^verbatim>\<open>null\<close>, an empty object and a final newline.\<close>

definition sampleOutput :: jsstring where
  "sampleOutput =
     js ''garbage'' @ [0x0A] @
     js ''{\"value\":\"a@npm:1.0.0\",\"children\":{\"Version\":\"1.0.0\"}}'' @ [0x0A, 0x0A] @
     js ''null'' @ [0x0A] @ js ''{}'' @ [0x0A]"

section \<open>Properties of rebaseLockfile\<close>

subsection \<open>What the pattern matches\<close>

lemma lazyDots_shape:
  "lazyDots s = Some (body, rest) \<Longrightarrow>
     \<exists>t. s = body @ t # rest \<and> isTerminator t \<and>
         (\<forall>c \<in> set body. \<not> isTerminator c \<and> \<not> isLineTerminator c)"
proof (induction s arbitrary: body)
  case Nil
  then show ?case by simp
next
  case (Cons c cs)
  show ?case
  proof (cases "isTerminator c")
    case True
    with Cons.prems show ?thesis by auto
  next
    case False
    with Cons.prems obtain b where b: "lazyDots cs = Some (b, rest)" "body = c # b"
      and nl: "\<not> isLineTerminator c"
      by (auto split: if_splits option.splits)
    from Cons.IH [OF b(1)] obtain t where
      "cs = b @ t # rest" "isTerminator t"
      "\<forall>c \<in> set b. \<not> isTerminator c \<and> \<not> isLineTerminator c"
      by blast
    with b(2) False nl show ?thesis by auto
  qed
qed

lemma pathWith_shape:
  "pathWith p s = Some (cap, rest) \<Longrightarrow>
     \<exists>body t. cap = p @ body \<and> s = cap @ t # rest \<and> isTerminator t \<and>
         (\<forall>c \<in> set body. \<not> isTerminator c \<and> \<not> isLineTerminator c)"
proof -
  assume a: "pathWith p s = Some (cap, rest)"
  then have pre: "prefix p s"
    by (auto simp: pathWith_def split: if_splits)
  then obtain s' where s: "s = p @ s'"
    by (auto simp: prefix_def)
  with a obtain body where b: "lazyDots s' = Some (body, rest)" "cap = p @ body"
    by (auto simp: pathWith_def split: option.splits)
  from lazyDots_shape [OF b(1)] s b(2) show ?thesis by auto
qed

lemma relativePath_shape:
  "relativePath s = Some (cap, rest) \<Longrightarrow>
     \<exists>p body t. (p = js ''./'' \<or> p = js ''../'') \<and> cap = p @ body \<and> s = cap @ t # rest \<and>
         isTerminator t \<and> (\<forall>c \<in> set body. \<not> isTerminator c \<and> \<not> isLineTerminator c)"
proof -
  assume "relativePath s = Some (cap, rest)"
  then have "pathWith (js ''./'') s = Some (cap, rest) \<or> pathWith (js ''../'') s = Some (cap, rest)"
    by (auto simp: relativePath_def split: option.splits)
  then show ?thesis
    by (metis pathWith_shape)
qed

lemma fileRef_shape:
  "fileRef s = Some (cap, rest) \<Longrightarrow>
     \<exists>f p body t. (f = [] \<or> f = js ''file:'') \<and> (p = js ''./'' \<or> p = js ''../'') \<and>
         cap = p @ body \<and> s = f @ cap @ t # rest \<and> isTerminator t \<and>
         (\<forall>c \<in> set body. \<not> isTerminator c \<and> \<not> isLineTerminator c)"
proof -
  assume a: "fileRef s = Some (cap, rest)"
  then consider
    (prefixed) "prefix (js ''file:'') s" "relativePath (drop 5 s) = Some (cap, rest)"
    | (plain) "relativePath s = Some (cap, rest)"
    by (auto simp: fileRef_def split: option.splits if_splits)
  then show ?thesis
  proof cases
    case prefixed
    from prefixed(1) have s: "s = js ''file:'' @ drop 5 s"
      by (auto simp: prefix_def js_def)
    from relativePath_shape [OF prefixed(2)] obtain p body t where
      "p = js ''./'' \<or> p = js ''../''" "cap = p @ body" "drop 5 s = cap @ t # rest"
      "isTerminator t" "\<forall>c \<in> set body. \<not> isTerminator c \<and> \<not> isLineTerminator c"
      by blast
    with s show ?thesis by metis
  next
    case plain
    from relativePath_shape [OF plain] show ?thesis
      by (metis append_Nil)
  qed
qed

lemma fileVersionMatcher_shape:
  "fileVersionMatcher s = Some (cap, rest) \<Longrightarrow>
     \<exists>x f p body t. x \<noteq> DQUOTE \<and> x \<noteq> SLASH \<and> (f = [] \<or> f = js ''file:'') \<and>
         (p = js ''./'' \<or> p = js ''../'') \<and> cap = p @ body \<and>
         s = x # AT # f @ cap @ t # rest \<and> isTerminator t \<and>
         (\<forall>c \<in> set body. \<not> isTerminator c \<and> \<not> isLineTerminator c)"
proof (cases s rule: fileVersionMatcher.cases)
  case (1 x a s')
  assume a: "fileVersionMatcher s = Some (cap, rest)"
  with 1 have g: "x \<noteq> DQUOTE" "x \<noteq> SLASH" "a = AT" and f: "fileRef s' = Some (cap, rest)"
    by (auto split: if_splits)
  from fileRef_shape [OF f] g 1 show ?thesis by blast
qed auto

subsection \<open>What the loop finds\<close>

lemma execAll_shape:
  "cap \<in> set (execAll s) \<Longrightarrow> \<exists>pre m rest. s = pre @ m \<and> fileVersionMatcher m = Some (cap, rest)"
proof (induction s rule: execAll.induct)
  case 1
  then show ?case by simp
next
  case (2 c cs)
  show ?case
  proof (cases "fileVersionMatcher (c # cs)")
    case None
    with 2 obtain pre m rest where "cs = pre @ m" "fileVersionMatcher m = Some (cap, rest)"
      by auto
    then have "c # cs = (c # pre) @ m \<and> fileVersionMatcher m = Some (cap, rest)" by simp
    then show ?thesis by blast
  next
    case (Some r)
    obtain cap' rest' where r: "r = (cap', rest')" by (cases r)
    show ?thesis
    proof (cases "cap = cap'")
      case True
      with Some r have "c # cs = [] @ (c # cs) \<and> fileVersionMatcher (c # cs) = Some (cap, rest')" by simp
      then show ?thesis by blast
    next
      case False
      with 2 Some r have "cap \<in> set (execAll rest')" by simp
      with 2 Some r obtain pre m rest where pm: "rest' = pre @ m" "fileVersionMatcher m = Some (cap, rest)"
        by blast
      from fileVersionMatcher_shape [OF Some [unfolded r]] obtain x f t where
        "c # cs = x # AT # f @ cap' @ t # rest'" by blast
      then have "c # cs = (x # AT # f @ cap' @ [t]) @ rest'" by simp
      then obtain front where "c # cs = front @ rest'" by blast
      with pm have "c # cs = (front @ pre) @ m \<and> fileVersionMatcher m = Some (cap, rest)" by simp
      then show ?thesis by blast
    qed
  qed
qed

lemma execAll_Nil_iff:
  "execAll s = [] \<longleftrightarrow> (\<forall>pre m. s = pre @ m \<longrightarrow> fileVersionMatcher m = None)"
proof (induction s rule: execAll.induct)
  case 1
  then show ?case by simp
next
  case (2 c cs)
  show ?case
  proof (cases "fileVersionMatcher (c # cs)")
    case None
    have "(\<forall>pre m. c # cs = pre @ m \<longrightarrow> fileVersionMatcher m = None) \<longleftrightarrow>
          (\<forall>pre m. cs = pre @ m \<longrightarrow> fileVersionMatcher m = None)"
    proof
      assume a: "\<forall>pre m. c # cs = pre @ m \<longrightarrow> fileVersionMatcher m = None"
      show "\<forall>pre m. cs = pre @ m \<longrightarrow> fileVersionMatcher m = None"
      proof (intro allI impI)
        fix pre m assume "cs = pre @ m"
        then have "c # cs = (c # pre) @ m" by simp
        with a show "fileVersionMatcher m = None" by blast
      qed
    next
      assume a: "\<forall>pre m. cs = pre @ m \<longrightarrow> fileVersionMatcher m = None"
      show "\<forall>pre m. c # cs = pre @ m \<longrightarrow> fileVersionMatcher m = None"
      proof (intro allI impI)
        fix pre m assume e: "c # cs = pre @ m"
        show "fileVersionMatcher m = None"
        proof (cases pre)
          case Nil
          with e None show ?thesis by simp
        next
          case (Cons x xs)
          with e have "cs = xs @ m" by simp
          with a show ?thesis by blast
        qed
      qed
    qed
    with 2 None show ?thesis by simp
  next
    case (Some r)
    then have "execAll (c # cs) \<noteq> []" by (auto split: prod.splits)
    moreover have "c # cs = [] @ (c # cs)" by simp
    with Some have "\<not> (\<forall>pre m. c # cs = pre @ m \<longrightarrow> fileVersionMatcher m = None)"
      by (metis option.distinct(1))
    ultimately show ?thesis by simp
  qed
qed

lemma lazyDots_complete:
  "\<forall>c \<in> set body. \<not> isLineTerminator c \<Longrightarrow> isTerminator t \<Longrightarrow> lazyDots (body @ t # rest) \<noteq> None"
  by (induction body) (auto split: option.splits)

lemma pathWith_complete:
  "\<forall>c \<in> set body. \<not> isLineTerminator c \<Longrightarrow> isTerminator t \<Longrightarrow> pathWith p (p @ body @ t # rest) \<noteq> None"
  using lazyDots_complete [of body t rest] by (auto simp: pathWith_def split: option.splits)

lemma relativePath_complete:
  "p = js ''./'' \<or> p = js ''../'' \<Longrightarrow> \<forall>c \<in> set body. \<not> isLineTerminator c \<Longrightarrow> isTerminator t \<Longrightarrow>
     relativePath (p @ body @ t # rest) \<noteq> None"
  using pathWith_complete [of body t p rest] by (auto simp: relativePath_def split: option.splits)

lemma fileRef_complete:
  assumes "f = [] \<or> f = js ''file:''" "p = js ''./'' \<or> p = js ''../''"
    "\<forall>c \<in> set body. \<not> isLineTerminator c" "isTerminator t"
  shows "fileRef (f @ p @ body @ t # rest) \<noteq> None"
proof -
  have r: "relativePath (p @ body @ t # rest) \<noteq> None"
    using assms relativePath_complete by blast
  from assms(1) show ?thesis
  proof
    assume "f = []"
    with r show ?thesis by (auto simp: fileRef_def split: option.splits)
  next
    assume f: "f = js ''file:''"
    then have "prefix (js ''file:'') (f @ p @ body @ t # rest)" by simp
    moreover from f have "drop 5 (f @ p @ body @ t # rest) = p @ body @ t # rest"
      by (simp add: js_def)
    ultimately show ?thesis using r by (auto simp: fileRef_def split: option.splits)
  qed
qed

subsection \<open>What one replacement does\<close>

lemma getSubstitution_no_dollar:
  "DOLLAR \<notin> set r \<Longrightarrow> getSubstitution m p f r = r"
  by (induction m p f r rule: getSubstitution.induct) auto

lemma splitAtFirst_Some:
  "splitAtFirst pat s = Some (pre, post) \<Longrightarrow>
     s = pre @ pat @ post \<and> (\<forall>pre' post'. s = pre' @ pat @ post' \<longrightarrow> length pre \<le> length pre')"
proof (induction s arbitrary: pre)
  case Nil
  then show ?case by (auto split: if_splits)
next
  case (Cons c cs)
  show ?case
  proof (cases "prefix pat (c # cs)")
    case True
    with Cons.prems have "pre = []" "post = drop (length pat) (c # cs)" by auto
    with True show ?thesis by (auto simp: prefix_def)
  next
    case False
    with Cons.prems obtain b where b: "splitAtFirst pat cs = Some (b, post)" "pre = c # b"
      by (auto split: option.splits)
    from Cons.IH [OF b(1)] have ih: "cs = b @ pat @ post"
      "\<forall>pre' post'. cs = pre' @ pat @ post' \<longrightarrow> length b \<le> length pre'" by auto
    have "length pre \<le> length pre'" if e: "c # cs = pre' @ pat @ post'" for pre' post'
    proof (cases pre')
      case Nil
      with e False show ?thesis by (auto simp: prefix_def)
    next
      case (Cons x xs)
      with e have "cs = xs @ pat @ post'" by simp
      with ih(2) have "length b \<le> length xs" by blast
      with Cons b(2) show ?thesis by simp
    qed
    with ih(1) b(2) show ?thesis by auto
  qed
qed

lemma splitAtFirst_None:
  "splitAtFirst pat s = None \<Longrightarrow> s \<noteq> pre @ pat @ post"
proof (induction s arbitrary: pre)
  case Nil
  then show ?case by (auto split: if_splits)
next
  case (Cons c cs)
  then have np: "\<not> prefix pat (c # cs)" and n: "splitAtFirst pat cs = None"
    by (auto split: if_splits option.splits)
  show ?case
  proof (cases pre)
    case Nil
    with np show ?thesis by (auto simp: prefix_def)
  next
    case (Cons x xs)
    with Cons.IH [OF n, of xs] show ?thesis by auto
  qed
qed

lemma stringReplace_first:
  assumes "DOLLAR \<notin> set new"
  shows "firstOccurrenceReplaced s old new (stringReplace s old new)"
proof (cases "splitAtFirst old s")
  case None
  then have "\<not> (\<exists>pre post. s = pre @ old @ post)"
    using splitAtFirst_None by blast
  with None show ?thesis
    by (simp add: firstOccurrenceReplaced_def stringReplace_def)
next
  case (Some r)
  obtain pre post where r: "r = (pre, post)" by (cases r)
  from splitAtFirst_Some [OF Some [unfolded r]]
  have s: "s = pre @ old @ post"
    and m: "\<forall>pre' post'. s = pre' @ old @ post' \<longrightarrow> length pre \<le> length pre'" by auto
  have "stringReplace s old new = pre @ new @ post"
    using Some r assms by (simp add: stringReplace_def getSubstitution_no_dollar)
  with s m show ?thesis
    unfolding firstOccurrenceReplaced_def by metis
qed

lemma foldl_appliedInOrder:
  "\<forall>r \<in> set rs. DOLLAR \<notin> set (newRef r) \<Longrightarrow>
     appliedInOrder s rs (foldl (\<lambda>acc r. stringReplace acc (oldRef r) (newRef r)) s rs)"
proof (induction rs arbitrary: s)
  case Nil
  then show ?case by simp
next
  case (Cons r rs)
  then have "firstOccurrenceReplaced s (oldRef r) (newRef r) (stringReplace s (oldRef r) (newRef r))"
    by (simp add: stringReplace_first)
  moreover from Cons have
    "appliedInOrder (stringReplace s (oldRef r) (newRef r)) rs
       (foldl (\<lambda>acc r. stringReplace acc (oldRef r) (newRef r)) (stringReplace s (oldRef r) (newRef r)) rs)"
    by simp
  ultimately show ?case by auto
qed

text \<open>
  What the code does: the pairs are applied in the order in which their matches were
  found, each to the result of the ones before it, and a pair whose \<open>newRef\<close> has no
  dollar sign replaces the first occurrence of the literal \<open>oldRef\<close> only.
\<close>

lemma rebaseLockfile_appliedInOrder:
  assumes "\<forall>r \<in> set (replacements pathToPackageRoot lockfile). DOLLAR \<notin> set (newRef r)"
  shows "appliedInOrder lockfile (replacements pathToPackageRoot lockfile)
           (rebaseLockfile pathToPackageRoot lockfile)"
  unfolding rebaseLockfile_def using assms by (rule foldl_appliedInOrder)

lemmas matcher_defs = js_def fileRef_def relativePath_def pathWith_def isTerminator_def isLineTerminator_def

text \<open>
  Claim C1. The claim has every occurrence of \<open>oldRef\<close> replaced, and the comment on
  line 122 says \<^verbatim>\<open>Replace all lines in lockfile\<close>; the code replaces the first occurrence
  only. For the root \<^verbatim>\<open>p\<close> and the lockfile \<^verbatim>\<open>a@./x" b@./x"\<close> two pairs are collected,
  one for each reference, and both rewrite the first reference: the result is
  \<^verbatim>\<open>a@p/p/./x" b@./x"\<close>, with the first reference rebased twice and the second not at
  all. For the lockfile \<^verbatim>\<open>a@./x" ./x"\<close> the second occurrence of \<^verbatim>\<open>./x\<close> stays as it
  is, where the global substitution of the claim rewrites it.
\<close>

theorem rebaseLockfile_rewrites_first_occurrence_only:
  "replacements (js ''p'') (js ''a@./x\" b@./x\"'') =
     [\<lparr>oldRef = js ''./x'', newRef = js ''p/./x''\<rparr>, \<lparr>oldRef = js ''./x'', newRef = js ''p/./x''\<rparr>]
   \<and> rebaseLockfile (js ''p'') (js ''a@./x\" b@./x\"'') = js ''a@p/p/./x\" b@./x\"''
   \<and> replacements (js ''p'') (js ''a@./x\" ./x\"'') = [\<lparr>oldRef = js ''./x'', newRef = js ''p/./x''\<rparr>]
   \<and> rebaseLockfile (js ''p'') (js ''a@./x\" ./x\"'') = js ''a@p/./x\" ./x\"''
   \<and> rebaseEveryOccurrence (js ''p'') (js ''a@./x\" ./x\"'') = js ''a@p/./x\" p/./x\"''"
proof -
  have r2: "replacements (js ''p'') (js ''a@./x\" b@./x\"'') =
     [\<lparr>oldRef = js ''./x'', newRef = js ''p/./x''\<rparr>, \<lparr>oldRef = js ''./x'', newRef = js ''p/./x''\<rparr>]"
    by (simp add: replacements_def replaceBackslashes_def matcher_defs)
  have v2: "rebaseLockfile (js ''p'') (js ''a@./x\" b@./x\"'') = js ''a@p/p/./x\" b@./x\"''"
    by (simp add: rebaseLockfile_def r2 stringReplace_def) (simp add: js_def)
  have r: "replacements (js ''p'') (js ''a@./x\" ./x\"'') = [\<lparr>oldRef = js ''./x'', newRef = js ''p/./x''\<rparr>]"
    by (simp add: replacements_def replaceBackslashes_def matcher_defs)
  have v: "rebaseLockfile (js ''p'') (js ''a@./x\" ./x\"'') = js ''a@p/./x\" ./x\"''"
    by (simp add: rebaseLockfile_def r stringReplace_def) (simp add: js_def)
  have w: "rebaseEveryOccurrence (js ''p'') (js ''a@./x\" ./x\"'') = js ''a@p/./x\" p/./x\"''"
    by (simp add: rebaseEveryOccurrence_def r) (simp add: js_def)
  from r2 v2 r v w show ?thesis by simp
qed

subsection \<open>The shape of a reference\<close>

lemma replacements_shape:
  assumes "r \<in> set (replacements pathToPackageRoot lockfile)"
  shows "\<exists>pre x f p body t post.
           lockfile = pre @ x # AT # f @ oldRef r @ t # post \<and>
           x \<noteq> DQUOTE \<and> x \<noteq> SLASH \<and> (f = [] \<or> f = js ''file:'') \<and>
           (p = js ''./'' \<or> p = js ''../'') \<and> oldRef r = p @ body \<and>
           (\<forall>c \<in> set body. \<not> isTerminator c \<and> \<not> isLineTerminator c) \<and> isTerminator t"
proof -
  from assms have "oldRef r \<in> set (execAll lockfile)"
    by (auto simp: replacements_def)
  from execAll_shape [OF this] obtain pre m rest where
    l: "lockfile = pre @ m" and m: "fileVersionMatcher m = Some (oldRef r, rest)" by blast
  from fileVersionMatcher_shape [OF m] obtain x f p body t where
    "x \<noteq> DQUOTE" "x \<noteq> SLASH" "f = [] \<or> f = js ''file:''" "p = js ''./'' \<or> p = js ''../''"
    "oldRef r = p @ body" "m = x # AT # f @ oldRef r @ t # rest" "isTerminator t"
    "\<forall>c \<in> set body. \<not> isTerminator c \<and> \<not> isLineTerminator c"
    by blast
  with l show ?thesis by blast
qed

text \<open>
  Claim C3. Every reference that rebaseLockfile extracts stands in the lockfile behind a
  code unit and an \<^verbatim>\<open>@\<close>, with or without \<^verbatim>\<open>file:\<close> in between, starts with
  \<^verbatim>\<open>./\<close> or \<^verbatim>\<open>../\<close>, and ends immediately before one of the characters \<^verbatim>\<open>"\<close>,
  \<^verbatim>\<open>/\<close>, \<^verbatim>\<open>:\<close> and \<^verbatim>\<open>,\<close>.
\<close>

theorem lockfileReference_shape:
  assumes "r \<in> set (replacements pathToPackageRoot lockfile)"
  shows "\<exists>pre x f p body t post.
           lockfile = pre @ x # AT # f @ oldRef r @ t # post \<and>
           (f = [] \<or> f = js ''file:'') \<and>
           (p = js ''./'' \<or> p = js ''../'') \<and> oldRef r = p @ body \<and>
           (t = DQUOTE \<or> t = SLASH \<or> t = COLON \<or> t = COMMA)"
proof -
  from replacements_shape [OF assms] obtain pre x f p body t post where
    "lockfile = pre @ x # AT # f @ oldRef r @ t # post" "f = [] \<or> f = js ''file:''"
    "p = js ''./'' \<or> p = js ''../''" "oldRef r = p @ body" "isTerminator t"
    by blast
  moreover from this(5) have "t = DQUOTE \<or> t = SLASH \<or> t = COLON \<or> t = COMMA"
    by (auto simp: isTerminator_def)
  ultimately show ?thesis by blast
qed

lemma local_dep_replacements:
  "replacements (js ''packages/svc'') (js ''\"pkg@file:../local-dep\":'') =
     [\<lparr>oldRef = js ''../local-dep'', newRef = js ''packages/svc/../local-dep''\<rparr>]"
  by (simp add: replacements_def replaceBackslashes_def matcher_defs)

theorem lockfileReference_shape_witness:
  "\<lparr>oldRef = js ''../local-dep'', newRef = js ''packages/svc/../local-dep''\<rparr>
     \<in> set (replacements (js ''packages/svc'') (js ''\"pkg@file:../local-dep\":''))
   \<and> (\<exists>pre x f p body t post.
         js ''\"pkg@file:../local-dep\":'' = pre @ x # AT # f @ js ''../local-dep'' @ t # post \<and>
         (f = [] \<or> f = js ''file:'') \<and>
         (p = js ''./'' \<or> p = js ''../'') \<and> js ''../local-dep'' = p @ body \<and>
         (t = DQUOTE \<or> t = SLASH \<or> t = COLON \<or> t = COMMA))"
proof -
  have m: "\<lparr>oldRef = js ''../local-dep'', newRef = js ''packages/svc/../local-dep''\<rparr>
     \<in> set (replacements (js ''packages/svc'') (js ''\"pkg@file:../local-dep\":''))"
    unfolding local_dep_replacements by simp
  from lockfileReference_shape [OF m] m show ?thesis by simp
qed

text \<open>
  The character behind a reference is in fact never the slash (\<open>replacements_shape\<close>
  has the class \<^verbatim>\<open>[":,]\<close> of the pattern).
\<close>

lemma terminator_is_not_slash: "isTerminator t \<Longrightarrow> t \<noteq> SLASH"
  by (auto simp: isTerminator_def)

subsection \<open>The new reference\<close>

text \<open>
  Claim C8. For every match collected, \<open>newRef\<close> is \<open>pathToPackageRoot\<close>, a slash and
  \<open>oldRef\<close>, with every backslash replaced by a slash.
\<close>

theorem newRef_is_rooted_oldRef:
  assumes "r \<in> set (replacements pathToPackageRoot lockfile)"
  shows "newRef r = map (\<lambda>c. if c = BACKSLASH then SLASH else c) (pathToPackageRoot @ [SLASH] @ oldRef r)"
  using assms by (auto simp: replacements_def replaceBackslashes_def)

lemma backslash_root_replacements:
  "replacements (js ''..'' @ [BACKSLASH] @ js ''svc'') (js ''\"pkg@file:../local-dep\":'') =
     [\<lparr>oldRef = js ''../local-dep'', newRef = js ''../svc/../local-dep''\<rparr>]"
  by (simp add: replacements_def replaceBackslashes_def matcher_defs)

theorem newRef_is_rooted_oldRef_witness:
  "\<lparr>oldRef = js ''../local-dep'', newRef = js ''../svc/../local-dep''\<rparr>
     \<in> set (replacements (js ''..'' @ [BACKSLASH] @ js ''svc'') (js ''\"pkg@file:../local-dep\":''))
   \<and> js ''../svc/../local-dep'' =
       map (\<lambda>c. if c = BACKSLASH then SLASH else c)
         ((js ''..'' @ [BACKSLASH] @ js ''svc'') @ [SLASH] @ js ''../local-dep'')"
proof -
  have m: "\<lparr>oldRef = js ''../local-dep'', newRef = js ''../svc/../local-dep''\<rparr>
     \<in> set (replacements (js ''..'' @ [BACKSLASH] @ js ''svc'') (js ''\"pkg@file:../local-dep\":''))"
    unfolding backslash_root_replacements by simp
  from newRef_is_rooted_oldRef [OF m] m show ?thesis by simp
qed

subsection \<open>A lockfile without references\<close>

lemma fileVersionMatcher_complete:
  assumes "x \<noteq> DQUOTE" "x \<noteq> SLASH" "f = [] \<or> f = js ''file:''" "p = js ''./'' \<or> p = js ''../''"
    "\<forall>c \<in> set body. \<not> isLineTerminator c" "isTerminator t"
  shows "fileVersionMatcher (x # AT # f @ p @ body @ t # post) \<noteq> None"
  using fileRef_complete [OF assms(3-6), of post] assms(1,2) by simp

lemma execAll_Nil_iff_containsReference:
  "execAll lockfile = [] \<longleftrightarrow> \<not> containsReference lockfile"
proof
  assume e: "execAll lockfile = []"
  show "\<not> containsReference lockfile"
  proof
    assume "containsReference lockfile"
    then obtain pre x f p body t post where
      l: "lockfile = pre @ x # AT # f @ p @ body @ t # post" and
      c: "x \<noteq> DQUOTE" "x \<noteq> SLASH" "f = [] \<or> f = js ''file:''" "p = js ''./'' \<or> p = js ''../''"
        "\<forall>c \<in> set body. \<not> isLineTerminator c" "isTerminator t"
      unfolding containsReference_def by blast
    from fileVersionMatcher_complete [OF c] have "fileVersionMatcher (x # AT # f @ p @ body @ t # post) \<noteq> None" .
    moreover from e l have "fileVersionMatcher (x # AT # f @ p @ body @ t # post) = None"
      unfolding execAll_Nil_iff by blast
    ultimately show False by simp
  qed
next
  assume n: "\<not> containsReference lockfile"
  show "execAll lockfile = []"
  proof (rule ccontr)
    assume "execAll lockfile \<noteq> []"
    then obtain cap where "cap \<in> set (execAll lockfile)"
      by (cases "execAll lockfile") auto
    from execAll_shape [OF this] obtain pre m rest where
      l: "lockfile = pre @ m" and m: "fileVersionMatcher m = Some (cap, rest)" by blast
    from fileVersionMatcher_shape [OF m] obtain x f p body t where
      c: "x \<noteq> DQUOTE" "x \<noteq> SLASH" "f = [] \<or> f = js ''file:''" "p = js ''./'' \<or> p = js ''../''"
      and cap: "cap = p @ body" and mm: "m = x # AT # f @ cap @ t # rest" and t: "isTerminator t"
      and b: "\<forall>c \<in> set body. \<not> isTerminator c \<and> \<not> isLineTerminator c"
      by blast
    have e: "lockfile = pre @ x # AT # f @ p @ body @ t # rest"
      by (simp add: l mm cap)
    from b have b': "\<forall>c \<in> set body. \<not> isLineTerminator c" by blast
    have "containsReference lockfile"
      unfolding containsReference_def using e c b' t by blast
    with n show False by simp
  qed
qed

text \<open>
  Claim C9. A lockfile in which the pattern matches nowhere yields no replacement and is
  returned as it is. \<open>rebaseLockfile\<close> returns a string for every input: the loop over
  \<open>exec\<close> ends (the termination proof of \<open>execAll\<close>), and nothing in it can throw.
\<close>

theorem rebaseLockfile_without_reference:
  assumes "\<not> containsReference lockfile"
  shows "replacements pathToPackageRoot lockfile = [] \<and>
         rebaseLockfile pathToPackageRoot lockfile = lockfile"
  using assms
  by (simp add: rebaseLockfile_def replacements_def execAll_Nil_iff_containsReference [symmetric])

theorem rebaseLockfile_without_reference_witness:
  "\<not> containsReference (js ''lodash@^4.17.21: version \"4.17.21\"'')
   \<and> replacements (js ''packages/svc'') (js ''lodash@^4.17.21: version \"4.17.21\"'') = []
   \<and> rebaseLockfile (js ''packages/svc'') (js ''lodash@^4.17.21: version \"4.17.21\"'')
       = js ''lodash@^4.17.21: version \"4.17.21\"''"
proof -
  have "execAll (js ''lodash@^4.17.21: version \"4.17.21\"'') = []"
    by (simp add: matcher_defs)
  then have n: "\<not> containsReference (js ''lodash@^4.17.21: version \"4.17.21\"'')"
    by (simp add: execAll_Nil_iff_containsReference)
  from rebaseLockfile_without_reference [OF n, of "js ''packages/svc''"] n show ?thesis by simp
qed

subsection \<open>The code unit before the reference\<close>

lemma zip_tl_neighbours:
  "s = pre @ x # a # post \<Longrightarrow> (x, a) \<in> set (zip s (tl s))"
proof (induction pre arbitrary: s)
  case Nil
  then show ?case by simp
next
  case (Cons c pre)
  then have "s = c # (pre @ x # a # post)" by simp
  moreover from Cons.IH [of "pre @ x # a # post"]
  have "(x, a) \<in> set (zip (pre @ x # a # post) (tl (pre @ x # a # post)))" by simp
  ultimately show ?case
    by (cases "pre @ x # a # post") auto
qed

text \<open>
  What the code does: every pair that is collected comes from a reference whose \<^verbatim>\<open>@\<close>
  stands after a code unit that is neither a double quote nor a slash, and a lockfile in
  which every \<^verbatim>\<open>@\<close> stands at the very start or right after \<^verbatim>\<open>"\<close> or \<^verbatim>\<open>/\<close> yields no
  pair and is returned as it is.
\<close>

lemma collected_reference_has_leading_character:
  "(\<forall>r \<in> set (replacements pathToPackageRoot lockfile).
      \<exists>pre x f t post. lockfile = pre @ x # AT # f @ oldRef r @ t # post \<and>
        x \<noteq> DQUOTE \<and> x \<noteq> SLASH \<and> (f = [] \<or> f = js ''file:'')) \<and>
   ((\<forall>(x, a) \<in> set (zip lockfile (tl lockfile)). a = AT \<longrightarrow> x = DQUOTE \<or> x = SLASH) \<longrightarrow>
      replacements pathToPackageRoot lockfile = [] \<and>
      rebaseLockfile pathToPackageRoot lockfile = lockfile)"
proof (intro conjI ballI impI)
  fix r assume "r \<in> set (replacements pathToPackageRoot lockfile)"
  from replacements_shape [OF this] 
  show "\<exists>pre x f t post. lockfile = pre @ x # AT # f @ oldRef r @ t # post \<and>
        x \<noteq> DQUOTE \<and> x \<noteq> SLASH \<and> (f = [] \<or> f = js ''file:'')"
    by blast
next
  assume a: "\<forall>(x, a) \<in> set (zip lockfile (tl lockfile)). a = AT \<longrightarrow> x = DQUOTE \<or> x = SLASH"
  have "\<not> containsReference lockfile"
  proof
    assume "containsReference lockfile"
    then obtain pre x rest where "lockfile = pre @ x # AT # rest" "x \<noteq> DQUOTE" "x \<noteq> SLASH"
      unfolding containsReference_def by blast
    from zip_tl_neighbours [OF this(1)] a this(2,3) show False by blast
  qed
  then have e: "execAll lockfile = []"
    by (simp add: execAll_Nil_iff_containsReference)
  then show "replacements pathToPackageRoot lockfile = []"
    by (simp add: replacements_def)
  from e show "rebaseLockfile pathToPackageRoot lockfile = lockfile"
    by (simp add: rebaseLockfile_def replacements_def)
qed


section \<open>Properties of getProdDependencies\<close>

lemmas object_defs = objectSet_def versionsGet_def propertyKey_def objectPrototypeKeys_def
  moduleName_def lodashToString_def toVal_def

subsection \<open>Keys and nodes of one level\<close>

lemma splitOn_first:
  "\<exists>pieces. splitOn sep s = takeWhile (\<lambda>c. c \<noteq> sep) s # pieces"
  by (induction s) auto

lemma moduleName_scoped:
  "moduleName (Some (AT # rest)) = AT # takeWhile (\<lambda>c. c \<noteq> AT) rest"
proof -
  obtain pieces where "splitOn AT rest = takeWhile (\<lambda>c. c \<noteq> AT) rest # pieces"
    using splitOn_first by blast
  then show ?thesis
    by (simp add: moduleName_def lodashToString_def propertyKey_def)
qed

lemma moduleName_unscoped:
  "\<not> prefix [AT] s \<Longrightarrow> moduleName (Some s) = takeWhile (\<lambda>c. c \<noteq> AT) s"
proof -
  assume a: "\<not> prefix [AT] s"
  obtain pieces where "splitOn AT s = takeWhile (\<lambda>c. c \<noteq> AT) s # pieces"
    using splitOn_first by blast
  with a show ?thesis
    by (simp add: moduleName_def lodashToString_def propertyKey_def)
qed

lemma objectSet_keys:
  "fst ` set (objectSet obj k v) = (if k = js ''__proto__'' then {} else {k}) \<union> fst ` set obj"
  by (simp add: objectSet_def dom_update)

lemma map_of_objectSet:
  "map_of (objectSet obj k v) k' =
     (if k = js ''__proto__'' then map_of obj k' else if k' = k then Some v else map_of obj k')"
  by (simp add: objectSet_def update_conv')

lemma convertData_Inr:
  "convertData versions p obj data = Inr obj' \<Longrightarrow>
     \<exists>v l c other locator deps. data = Entry v l c other \<and> dataAt data p = Inr locator \<and>
       convertChildren versions c = Inr deps \<and>
       obj' = objectSet obj (moduleName locator) (Node (versionsGet versions (propertyKey locator)) deps)"
  by (cases data) (auto split: sum.splits)

lemma reduceValues_keys:
  "reduceValues versions p obj values = Inr obj' \<Longrightarrow>
     fst ` set obj \<subseteq> fst ` set obj' \<and>
     (\<forall>data \<in> set values. \<forall>locator. dataAt data p = Inr locator \<longrightarrow>
        moduleName locator \<noteq> js ''__proto__'' \<longrightarrow> moduleName locator \<in> fst ` set obj')"
proof (induction "values" arbitrary: obj)
  case Nil
  then show ?case by simp
next
  case (Cons data "values")
  from Cons.prems obtain obj1 where
    d: "convertData versions p obj data = Inr obj1" and
    r: "reduceValues versions p obj1 values = Inr obj'"
    by (auto split: sum.splits)
  from convertData_Inr [OF d] obtain locator node where
    l: "dataAt data p = Inr locator" and o: "obj1 = objectSet obj (moduleName locator) node"
    by blast
  from Cons.IH [OF r] have ih: "fst ` set obj1 \<subseteq> fst ` set obj'"
    "\<forall>data \<in> set values. \<forall>locator. dataAt data p = Inr locator \<longrightarrow>
        moduleName locator \<noteq> js ''__proto__'' \<longrightarrow> moduleName locator \<in> fst ` set obj'"
    by auto
  from o have k: "fst ` set obj1 = (if moduleName locator = js ''__proto__'' then {} else {moduleName locator}) \<union> fst ` set obj"
    by (simp add: objectSet_keys)
  from k ih(1) have 1: "fst ` set obj \<subseteq> fst ` set obj'" by auto
  from k ih(1) l have 2: "\<forall>locator. dataAt data p = Inr locator \<longrightarrow>
        moduleName locator \<noteq> js ''__proto__'' \<longrightarrow> moduleName locator \<in> fst ` set obj'"
    by auto
  from 1 2 ih(2) show ?case by simp
qed

lemma scoped_not_proto: "AT # s \<noteq> js ''__proto__''"
  by (simp add: js_def)

lemma namedLast_Cons:
  "namedLast p k values data \<Longrightarrow> namedLast p k (d # values) data"
proof -
  assume "namedLast p k values data"
  then obtain preceding following locator where
    "values = preceding @ data # following" and r: "dataAt data p = Inr locator" "moduleName locator = k"
    "\<forall>d \<in> set following. \<forall>loc. dataAt d p = Inr loc \<longrightarrow> moduleName loc \<noteq> k"
    unfolding namedLast_def by blast
  then have "d # values = (d # preceding) @ data # following" by simp
  with r show ?thesis unfolding namedLast_def by blast
qed

lemma namedLast_head:
  assumes "dataAt data p = Inr locator"
    and "\<forall>d \<in> set values. \<forall>loc. dataAt d p = Inr loc \<longrightarrow> moduleName loc \<noteq> moduleName locator"
  shows "namedLast p (moduleName locator) (data # values) data"
proof -
  have "data # values = [] @ data # values" by simp
  with assms show ?thesis unfolding namedLast_def by blast
qed

lemma split_unique:
  "xs @ a # ys = xs' @ b # ys' \<Longrightarrow> a \<notin> set ys' \<Longrightarrow> b \<notin> set ys \<Longrightarrow> a = b"
proof (induction xs arbitrary: xs')
  case Nil
  then show ?case by (cases xs') auto
next
  case (Cons x xs)
  show ?case
  proof (cases xs')
    case Nil
    with Cons.prems show ?thesis by auto
  next
    case (Cons x' zs)
    with Cons.prems Cons.IH [of zs] show ?thesis by auto
  qed
qed

lemma namedLast_unique:
  assumes "namedLast p k values data" "namedLast p k values data'"
  shows "data = data'"
proof -
  from assms(1) obtain pre fol loc where
    1: "values = pre @ data # fol" "dataAt data p = Inr loc" "moduleName loc = k"
    "\<forall>d \<in> set fol. \<forall>loc. dataAt d p = Inr loc \<longrightarrow> moduleName loc \<noteq> k"
    unfolding namedLast_def by blast
  from assms(2) obtain pre' fol' loc' where
    2: "values = pre' @ data' # fol'" "dataAt data' p = Inr loc'" "moduleName loc' = k"
    "\<forall>d \<in> set fol'. \<forall>loc. dataAt d p = Inr loc \<longrightarrow> moduleName loc \<noteq> k"
    unfolding namedLast_def by blast
  from 1(2,3) 2(4) have a: "data \<notin> set fol'" by blast
  from 2(2,3) 1(4) have b: "data' \<notin> set fol" by blast
  from 1(1) 2(1) have "pre @ data # fol = pre' @ data' # fol'" by simp
  from split_unique [OF this a b] show ?thesis .
qed

lemma convertData_nodeFor:
  assumes "convertData versions p obj data = Inr obj'"
  shows "\<exists>locator n. dataAt data p = Inr locator \<and> nodeFor versions p data n \<and>
           obj' = objectSet obj (moduleName locator) n"
proof -
  from convertData_Inr [OF assms] obtain v l c other locator deps where
    "data = Entry v l c other" "dataAt data p = Inr locator" "convertChildren versions c = Inr deps"
    "obj' = objectSet obj (moduleName locator) (Node (versionsGet versions (propertyKey locator)) deps)"
    by blast
  then show ?thesis unfolding nodeFor_def by blast
qed

lemma reduceValues_lookup:
  assumes "reduceValues versions p obj values = Inr obj'"
  shows "(map_of obj' k = map_of obj k \<and>
           (k = js ''__proto__'' \<or>
            (\<forall>d \<in> set values. \<forall>loc. dataAt d p = Inr loc \<longrightarrow> moduleName loc \<noteq> k))) \<or>
         (\<exists>data n. namedLast p k values data \<and> nodeFor versions p data n \<and> map_of obj' k = Some n)"
  using assms
proof (induction "values" arbitrary: obj)
  case Nil
  then show ?case by simp
next
  case (Cons data "values")
  from Cons.prems obtain obj1 where
    d: "convertData versions p obj data = Inr obj1" and
    r: "reduceValues versions p obj1 values = Inr obj'"
    by (auto split: sum.splits)
  from convertData_nodeFor [OF d] obtain locator n where
    l: "dataAt data p = Inr locator" and nf: "nodeFor versions p data n" and
    o: "obj1 = objectSet obj (moduleName locator) n"
    by blast
  from Cons.IH [OF r] consider
    (kept) "map_of obj' k = map_of obj1 k"
      "k = js ''__proto__'' \<or>
        (\<forall>d \<in> set values. \<forall>loc. dataAt d p = Inr loc \<longrightarrow> moduleName loc \<noteq> k)"
    | (later) data' n' where "namedLast p k values data'" "nodeFor versions p data' n'"
        "map_of obj' k = Some n'"
    by blast
  then show ?case
  proof cases
    case kept
    show ?thesis
    proof (cases "k = js ''__proto__''")
      case True
      with kept(1) o have "map_of obj' k = map_of obj k"
        by (simp add: map_of_objectSet)
      with True show ?thesis by simp
    next
      case False
      with kept(2) have nl: "\<forall>d \<in> set values. \<forall>loc. dataAt d p = Inr loc \<longrightarrow> moduleName loc \<noteq> k"
        by simp
      show ?thesis
      proof (cases "moduleName locator = k")
        case True
        with False kept(1) o have "map_of obj' k = Some n"
          by (simp add: map_of_objectSet)
        moreover from namedLast_head [OF l] nl True have "namedLast p k (data # values) data"
          by blast
        ultimately show ?thesis using nf by blast
      next
        case neq: False
        with kept(1) o have "map_of obj' k = map_of obj k"
          by (simp add: map_of_objectSet)
        moreover from neq l nl
        have "\<forall>d \<in> set (data # values). \<forall>loc. dataAt d p = Inr loc \<longrightarrow> moduleName loc \<noteq> k"
          by simp
        ultimately show ?thesis by blast
      qed
    qed
  next
    case later
    from namedLast_Cons [OF later(1)] later(2,3) show ?thesis by blast
  qed
qed

subsection \<open>The levels of the graph\<close>

text \<open>
  Every level of the graph is what \<open>convertValues\<close> makes of the entries of that level,
  with the index of the top-level values.
\<close>

lemma madeFrom_convertValues:
  assumes "toGraph parsedValues = Inr g" and "madeFrom parsedValues g p values obj"
  shows "\<exists>versions. indexItems [] parsedValues = Inr versions \<and>
           convertValues versions values p = Inr obj"
proof -
  from assms(1) obtain versions where
    i: "indexItems [] parsedValues = Inr versions" and
    c: "convertValues versions parsedValues PathValue = Inr (dependencies g)"
    by (auto simp: toGraph_def split: sum.splits)
  from assms(2) have "convertValues versions values p = Inr obj"
  proof (induction rule: madeFrom.induct)
    case top
    show ?case by (rule c)
  next
    case (nested p "values" obj k v l ver deps other n depsn)
    from reduceValues_lookup [OF nested.IH [unfolded convertValues_def], of k] nested.hyps(3)
    obtain data n' where
      d: "namedLast p k values data" "nodeFor versions p data n'" "map_of obj k = Some n'"
      by auto
    from namedLast_unique [OF d(1) nested.hyps(2)]
    have "data = Entry v l (Children ver (Some deps)) other" .
    with d(2,3) nested.hyps(3)
    have "nodeFor versions p (Entry v l (Children ver (Some deps)) other) (Node n depsn)"
      by simp
    then have "convertChildren versions (Children ver (Some deps)) = Inr depsn"
      unfolding nodeFor_def by auto
    then show ?case by (simp add: convertValues_def)
  qed
  with i show ?thesis by blast
qed

subsection \<open>The key of a scoped module\<close>

text \<open>
  Claim C4. Take a listing that is converted to the graph \<open>g\<close>, and any level of it: the
  parsed values, whose locator is the field \<^verbatim>\<open>value\<close>, or the \<^verbatim>\<open>children.Dependencies\<close>
  of an entry that has a node in \<open>g\<close>, whose locator is the field \<^verbatim>\<open>locator\<close>. For every
  entry of that level whose locator begins with \<^verbatim>\<open>@\<close>, the mapping of that level in \<open>g\<close>
  has the key that is the name with its scope: the \<^verbatim>\<open>@\<close> and what follows it up to the
  next \<^verbatim>\<open>@\<close>. So \<^verbatim>\<open>@scope/name@1.0.0\<close> and
  \<^verbatim>\<open>@scope/name@^1.0.0::locator=root%40workspace%3A.\<close> both give the key
  \<^verbatim>\<open>@scope/name\<close>.
\<close>

theorem scoped_module_key:
  assumes "toGraph parsedValues = Inr g"
    and "madeFrom parsedValues g p values obj"
    and "data \<in> set values"
    and "dataAt data p = Inr (Some (AT # rest))"
  shows "moduleName (Some (AT # rest)) = AT # takeWhile (\<lambda>c. c \<noteq> AT) rest \<and>
         AT # takeWhile (\<lambda>c. c \<noteq> AT) rest \<in> fst ` set obj"
proof -
  from madeFrom_convertValues [OF assms(1,2)] obtain versions where
    c: "convertValues versions values p = Inr obj" by blast
  have n: "moduleName (Some (AT # rest)) = AT # takeWhile (\<lambda>c. c \<noteq> AT) rest"
    by (rule moduleName_scoped)
  have "moduleName (Some (AT # rest)) \<noteq> js ''__proto__''"
    unfolding n by (rule scoped_not_proto)
  with reduceValues_keys [OF c [unfolded convertValues_def]] assms(3,4)
  have "moduleName (Some (AT # rest)) \<in> fst ` set obj" by blast
  with n show ?thesis by simp
qed

lemma scoped_examples:
  "moduleName (Some (js ''@scope/name@1.0.0'')) = js ''@scope/name''"
  "moduleName (Some (js ''@scope/name@^1.0.0::locator=root%40workspace%3A.'')) = js ''@scope/name''"
  by (simp_all add: moduleName_def lodashToString_def propertyKey_def js_def)

lemma scopedValues_graph:
  "toGraph scopedValues = Inr \<lparr>problems = [], dependencies =
     [(js ''root'', Node (Str (js ''0.0.0'')) [(js ''@scope/name'', Node Undefined [])]),
      (js ''@scope/name'', Node (Str (js ''1.0.0'')) [])]\<rparr>"
  by (simp add: toGraph_def convertValues_def scopedValues_def object_defs js_def)

theorem scoped_module_key_witness:
  "toGraph scopedValues = Inr \<lparr>problems = [], dependencies =
     [(js ''root'', Node (Str (js ''0.0.0'')) [(js ''@scope/name'', Node Undefined [])]),
      (js ''@scope/name'', Node (Str (js ''1.0.0'')) [])]\<rparr>
   \<and> AT # takeWhile (\<lambda>c. c \<noteq> AT) (js ''scope/name@1.0.0'') = js ''@scope/name''
   \<and> js ''@scope/name'' \<in> fst ` set
       [(js ''root'', Node (Str (js ''0.0.0'')) [(js ''@scope/name'', Node Undefined [])]),
        (js ''@scope/name'', Node (Str (js ''1.0.0'')) [])]
   \<and> madeFrom scopedValues
       \<lparr>problems = [], dependencies =
          [(js ''root'', Node (Str (js ''0.0.0'')) [(js ''@scope/name'', Node Undefined [])]),
           (js ''@scope/name'', Node (Str (js ''1.0.0'')) [])]\<rparr>
       PathLocator
       [Entry None (Some (js ''@scope/name@^1.0.0::locator=root%40workspace%3A.'')) NoChildren True]
       [(js ''@scope/name'', Node Undefined [])]
   \<and> AT # takeWhile (\<lambda>c. c \<noteq> AT) (js ''scope/name@^1.0.0::locator=root%40workspace%3A.'')
       = js ''@scope/name''
   \<and> js ''@scope/name'' \<in> fst ` set [(js ''@scope/name'', Node Undefined [])]"
proof -
  let ?child = "Entry None (Some (js ''@scope/name@^1.0.0::locator=root%40workspace%3A.'')) NoChildren True"
  let ?first = "Entry (Some (js ''root@workspace:.'')) None
        (Children (Some (js ''0.0.0'')) (Some [?child])) False"
  let ?second = "Entry (Some (js ''@scope/name@1.0.0'')) None (Children (Some (js ''1.0.0'')) None) False"
  let ?nested = "[(js ''@scope/name'', Node Undefined [])]"
  let ?deps = "[(js ''root'', Node (Str (js ''0.0.0'')) ?nested),
      (js ''@scope/name'', Node (Str (js ''1.0.0'')) [])]"
  let ?g = "\<lparr>problems = [], dependencies = ?deps\<rparr>"
  let ?rest1 = "js ''scope/name@1.0.0''"
  let ?rest2 = "js ''scope/name@^1.0.0::locator=root%40workspace%3A.''"
  have g: "toGraph scopedValues = Inr ?g" by (rule scopedValues_graph)
  have s: "scopedValues = ?first # [?second]" by (simp add: scopedValues_def)
  have t: "madeFrom scopedValues ?g PathValue scopedValues (dependencies ?g)"
    by (rule madeFrom.top)
  have d1: "dataAt ?second PathValue = Inr (Some (AT # ?rest1))" by (simp add: js_def)
  have m1: "?second \<in> set scopedValues" unfolding s by simp
  have k1: "AT # takeWhile (\<lambda>c. c \<noteq> AT) ?rest1 = js ''@scope/name''" by (simp add: js_def)
  from scoped_module_key [OF g t m1 d1] have 1: "js ''@scope/name'' \<in> fst ` set ?deps"
    unfolding k1 by simp
  have a: "dataAt ?first PathValue = Inr (Some (js ''root@workspace:.''))" by simp
  have r: "moduleName (Some (js ''root@workspace:.'')) = js ''root''"
    by (simp add: moduleName_def lodashToString_def propertyKey_def js_def)
  have b: "\<forall>d \<in> set [?second]. \<forall>loc. dataAt d PathValue = Inr loc \<longrightarrow>
      moduleName loc \<noteq> moduleName (Some (js ''root@workspace:.''))"
    unfolding r by (simp add: moduleName_def lodashToString_def propertyKey_def js_def)
  from namedLast_head [OF a b]
  have "namedLast PathValue (moduleName (Some (js ''root@workspace:.''))) (?first # [?second]) ?first" .
  then have nl: "namedLast PathValue (js ''root'') scopedValues ?first"
    unfolding r s .
  have mp: "map_of (dependencies ?g) (js ''root'') = Some (Node (Str (js ''0.0.0'')) ?nested)"
    by simp
  from madeFrom.nested [OF t nl mp]
  have n: "madeFrom scopedValues ?g PathLocator [?child] ?nested" .
  have d2: "dataAt ?child PathLocator = Inr (Some (AT # ?rest2))" by (simp add: js_def)
  have k2: "AT # takeWhile (\<lambda>c. c \<noteq> AT) ?rest2 = js ''@scope/name''" by (simp add: js_def)
  have "?child \<in> set [?child]" by simp
  from scoped_module_key [OF g n this d2] have 2: "js ''@scope/name'' \<in> fst ` set ?nested"
    unfolding k2 by simp
  from g k1 1 n k2 2 show ?thesis by blast
qed

subsection \<open>The version of a node\<close>

text \<open>What the index holds under a key is the \<^verbatim>\<open>Version\<close> of the last item with that key.\<close>

lemma indexItem_Inr:
  "indexItem versions item = Inr versions' \<Longrightarrow>
     \<exists>v l c other ver. item = Entry v l c other \<and> childrenVersion c = Inr ver \<and>
       versions' = objectSet versions (propertyKey v) (toVal ver)"
  by (cases item) (auto split: sum.splits)

lemma indexItems_untouched:
  "indexItems versions items = Inr versions' \<Longrightarrow>
     \<forall>d \<in> set items. \<forall>v'. dataAt d PathValue = Inr v' \<longrightarrow> propertyKey v' \<noteq> k \<Longrightarrow>
     map_of versions' k = map_of versions k"
proof (induction items arbitrary: versions)
  case Nil
  then show ?case by simp
next
  case (Cons item items)
  from Cons.prems(1) obtain versions1 where
    i: "indexItem versions item = Inr versions1" and r: "indexItems versions1 items = Inr versions'"
    by (auto split: sum.splits)
  from indexItem_Inr [OF i] obtain v l c other ver where
    e: "item = Entry v l c other"
    and o: "versions1 = objectSet versions (propertyKey v) (toVal ver)"
    by blast
  from e Cons.prems(2) have "propertyKey v \<noteq> k" by simp
  with o have "map_of versions1 k = map_of versions k"
    by (simp add: map_of_objectSet)
  moreover from Cons.IH [OF r] Cons.prems(2) have "map_of versions' k = map_of versions1 k"
    by simp
  ultimately show ?case by simp
qed

lemma indexItems_recordedLast:
  assumes "indexItems versions items = Inr versions'"
    and "recordedLast k items ver" and "k \<noteq> js ''__proto__''"
  shows "map_of versions' k = Some (toVal ver)"
proof -
  from assms(2) obtain preceding v l c other following where
    s: "items = preceding @ Entry v l c other # following" and
    k: "propertyKey v = k" and
    c: "(\<exists>deps. c = Children ver deps) \<or> (\<exists>truthy. c = OtherChildren truthy \<and> ver = None)" and
    n: "\<forall>d \<in> set following. \<forall>v'. dataAt d PathValue = Inr v' \<longrightarrow> propertyKey v' \<noteq> k"
    unfolding recordedLast_def by blast
  from c have cv: "childrenVersion c = Inr ver" by auto
  from assms(1) show ?thesis unfolding s
  proof (induction preceding arbitrary: versions)
    case Nil
    with cv have r: "indexItems (objectSet versions (propertyKey v) (toVal ver)) following = Inr versions'"
      by simp
    from indexItems_untouched [OF r n] k assms(3) show ?case
      by (simp add: map_of_objectSet)
  next
    case (Cons item preceding)
    then show ?case by (auto split: sum.splits)
  qed
qed

lemma versions_hold_last_Version:
  assumes "indexItems [] items = Inr versions"
    and "recordedLast k items ver" and "k \<noteq> js ''__proto__''"
  shows "versionsGet versions k = toVal ver"
  using indexItems_recordedLast [OF assms] by (simp add: versionsGet_def)

text \<open>
  Claim C5. Take a listing that is converted to the graph \<open>g\<close>, and any level of it with
  its mapping in \<open>g\<close>. Every node of the mapping belongs to the last entry of its name in
  that level, and every such entry has its node there (but for the name \<^verbatim>\<open>__proto__\<close>,
  which makes no key). The version of the node is what the index of versions holds under
  the locator of that entry as it stands in the entry, the field \<^verbatim>\<open>value\<close> at the top
  level and \<^verbatim>\<open>locator\<close> below: not under the corrected name and not under the locator of
  another entry. The index is the one made from the top-level values, and what it holds
  under a key is the \<^verbatim>\<open>children.Version\<close> of the last top-level value with that key.
\<close>

theorem version_is_looked_up_by_original_locator:
  assumes "toGraph parsedValues = Inr g"
    and "madeFrom parsedValues g p values obj"
  shows "\<exists>versions. indexItems [] parsedValues = Inr versions \<and>
     (\<forall>k n. map_of obj k = Some n \<longrightarrow>
        (\<exists>data locator. namedLast p k values data \<and> dataAt data p = Inr locator \<and>
           version n = versionsGet versions (propertyKey locator))) \<and>
     (\<forall>k data. namedLast p k values data \<and> k \<noteq> js ''__proto__'' \<longrightarrow>
        (\<exists>n locator. map_of obj k = Some n \<and> dataAt data p = Inr locator \<and>
           version n = versionsGet versions (propertyKey locator))) \<and>
     (\<forall>key ver. recordedLast key parsedValues ver \<and> key \<noteq> js ''__proto__'' \<longrightarrow>
        versionsGet versions key = toVal ver)"
proof -
  from madeFrom_convertValues [OF assms] obtain versions where
    i: "indexItems [] parsedValues = Inr versions" and
    c: "reduceValues versions p [] values = Inr obj"
    unfolding convertValues_def by blast
  have 1: "\<exists>data locator. namedLast p k values data \<and> dataAt data p = Inr locator \<and>
           version n = versionsGet versions (propertyKey locator)"
    if m: "map_of obj k = Some n" for k n
  proof -
    from reduceValues_lookup [OF c, of k] m obtain data where
      "namedLast p k values data" "nodeFor versions p data n"
      by auto
    then show ?thesis unfolding nodeFor_def by auto
  qed
  have 2: "\<exists>n locator. map_of obj k = Some n \<and> dataAt data p = Inr locator \<and>
           version n = versionsGet versions (propertyKey locator)"
    if a: "namedLast p k values data \<and> k \<noteq> js ''__proto__''" for k data
  proof -
    from a have "\<exists>d \<in> set values. \<exists>loc. dataAt d p = Inr loc \<and> moduleName loc = k"
      unfolding namedLast_def by auto
    with reduceValues_lookup [OF c, of k] a
    obtain data' n where d: "namedLast p k values data'" "nodeFor versions p data' n"
      "map_of obj k = Some n"
      by blast
    from namedLast_unique [OF d(1)] a have "data' = data" by blast
    with d(2) have "\<exists>locator. dataAt data p = Inr locator \<and>
        version n = versionsGet versions (propertyKey locator)"
      unfolding nodeFor_def by auto
    with d(3) show ?thesis by blast
  qed
  have 3: "versionsGet versions key = toVal ver"
    if "recordedLast key parsedValues ver \<and> key \<noteq> js ''__proto__''" for key ver
    using versions_hold_last_Version [OF i] that by blast
  from i 1 2 3 show ?thesis by blast
qed

lemma sampleValues_graph:
  "toGraph sampleValues = Inr \<lparr>problems = [], dependencies =
     [(js ''a'', Node (Str (js ''1.0.0'')) [(js ''@b/c'', Node (Str (js ''2.0.0'')) [])]),
      (js ''@b/c'', Node (Str (js ''2.0.0'')) [])]\<rparr>"
  by (simp add: toGraph_def convertValues_def sampleValues_def object_defs js_def)

lemma sampleValues_index:
  "indexItems [] sampleValues =
     Inr [(js ''a@npm:1.0.0'', Str (js ''1.0.0'')), (js ''@b/c@npm:2.0.0'', Str (js ''2.0.0''))]"
  by (simp add: sampleValues_def object_defs js_def)

theorem version_is_looked_up_by_original_locator_witness:
  "toGraph sampleValues = Inr \<lparr>problems = [], dependencies =
     [(js ''a'', Node (Str (js ''1.0.0'')) [(js ''@b/c'', Node (Str (js ''2.0.0'')) [])]),
      (js ''@b/c'', Node (Str (js ''2.0.0'')) [])]\<rparr>
   \<and> indexItems [] sampleValues =
       Inr [(js ''a@npm:1.0.0'', Str (js ''1.0.0'')), (js ''@b/c@npm:2.0.0'', Str (js ''2.0.0''))]
   \<and> madeFrom sampleValues
       \<lparr>problems = [], dependencies =
          [(js ''a'', Node (Str (js ''1.0.0'')) [(js ''@b/c'', Node (Str (js ''2.0.0'')) [])]),
           (js ''@b/c'', Node (Str (js ''2.0.0'')) [])]\<rparr>
       PathLocator
       [Entry None (Some (js ''@b/c@npm:2.0.0'')) NoChildren True]
       [(js ''@b/c'', Node (Str (js ''2.0.0'')) [])]
   \<and> namedLast PathLocator (js ''@b/c'')
       [Entry None (Some (js ''@b/c@npm:2.0.0'')) NoChildren True]
       (Entry None (Some (js ''@b/c@npm:2.0.0'')) NoChildren True)
   \<and> (\<exists>n. map_of [(js ''@b/c'', Node (Str (js ''2.0.0'')) [])] (js ''@b/c'') = Some n \<and>
         version n =
           versionsGet
             [(js ''a@npm:1.0.0'', Str (js ''1.0.0'')), (js ''@b/c@npm:2.0.0'', Str (js ''2.0.0''))]
             (js ''@b/c@npm:2.0.0''))
   \<and> recordedLast (js ''a@npm:1.0.0'') sampleValues (Some (js ''1.0.0''))
   \<and> versionsGet
         [(js ''a@npm:1.0.0'', Str (js ''1.0.0'')), (js ''@b/c@npm:2.0.0'', Str (js ''2.0.0''))]
         (js ''a@npm:1.0.0'') = Str (js ''1.0.0'')
   \<and> (\<exists>data locator. namedLast PathValue (js ''a'') sampleValues data \<and>
         dataAt data PathValue = Inr locator \<and>
         Str (js ''1.0.0'') =
           versionsGet
             [(js ''a@npm:1.0.0'', Str (js ''1.0.0'')), (js ''@b/c@npm:2.0.0'', Str (js ''2.0.0''))]
             (propertyKey locator))"
proof -
  let ?child = "Entry None (Some (js ''@b/c@npm:2.0.0'')) NoChildren True"
  let ?first = "Entry (Some (js ''a@npm:1.0.0'')) None
        (Children (Some (js ''1.0.0'')) (Some [?child])) False"
  let ?second = "Entry (Some (js ''@b/c@npm:2.0.0'')) None (Children (Some (js ''2.0.0'')) None) False"
  let ?nested = "[(js ''@b/c'', Node (Str (js ''2.0.0'')) [])]"
  let ?deps = "[(js ''a'', Node (Str (js ''1.0.0'')) ?nested),
      (js ''@b/c'', Node (Str (js ''2.0.0'')) [])]"
  let ?g = "\<lparr>problems = [], dependencies = ?deps\<rparr>"
  let ?versions = "[(js ''a@npm:1.0.0'', Str (js ''1.0.0'')), (js ''@b/c@npm:2.0.0'', Str (js ''2.0.0''))]"
  have g: "toGraph sampleValues = Inr ?g" by (rule sampleValues_graph)
  have i: "indexItems [] sampleValues = Inr ?versions" by (rule sampleValues_index)
  have s: "sampleValues = ?first # [?second]" by (simp add: sampleValues_def)
  have t: "madeFrom sampleValues ?g PathValue sampleValues (dependencies ?g)"
    by (rule madeFrom.top)
  have a: "dataAt ?first PathValue = Inr (Some (js ''a@npm:1.0.0''))" by simp
  have r: "moduleName (Some (js ''a@npm:1.0.0'')) = js ''a''"
    by (simp add: moduleName_def lodashToString_def propertyKey_def js_def)
  have b: "\<forall>d \<in> set [?second]. \<forall>loc. dataAt d PathValue = Inr loc \<longrightarrow>
      moduleName loc \<noteq> moduleName (Some (js ''a@npm:1.0.0''))"
    unfolding r by (simp add: moduleName_def lodashToString_def propertyKey_def js_def)
  from namedLast_head [OF a b]
  have "namedLast PathValue (moduleName (Some (js ''a@npm:1.0.0''))) (?first # [?second]) ?first" .
  then have nl: "namedLast PathValue (js ''a'') sampleValues ?first"
    unfolding r s .
  have mp: "map_of (dependencies ?g) (js ''a'') = Some (Node (Str (js ''1.0.0'')) ?nested)"
    by simp
  from madeFrom.nested [OF t nl mp]
  have n: "madeFrom sampleValues ?g PathLocator [?child] ?nested" .
  have a2: "dataAt ?child PathLocator = Inr (Some (js ''@b/c@npm:2.0.0''))" by simp
  have r2: "moduleName (Some (js ''@b/c@npm:2.0.0'')) = js ''@b/c''"
    by (simp add: moduleName_def lodashToString_def propertyKey_def js_def)
  have "\<forall>d \<in> set []. \<forall>loc. dataAt d PathLocator = Inr loc \<longrightarrow>
      moduleName loc \<noteq> moduleName (Some (js ''@b/c@npm:2.0.0''))"
    by simp
  from namedLast_head [OF a2 this]
  have nl2: "namedLast PathLocator (js ''@b/c'') [?child] ?child"
    unfolding r2 .
  have k2: "js ''@b/c'' \<noteq> js ''__proto__''" by (simp add: js_def)
  from version_is_looked_up_by_original_locator [OF g n] obtain versions where
    v: "indexItems [] sampleValues = Inr versions" and
    c: "\<forall>k data. namedLast PathLocator k [?child] data \<and> k \<noteq> js ''__proto__'' \<longrightarrow>
        (\<exists>n locator. map_of ?nested k = Some n \<and> dataAt data PathLocator = Inr locator \<and>
           version n = versionsGet versions (propertyKey locator))"
    by blast
  from v i have e: "versions = ?versions" by simp
  from c [rule_format, OF conjI [OF nl2 k2]]
  have 1: "\<exists>n. map_of ?nested (js ''@b/c'') = Some n \<and>
      version n = versionsGet ?versions (js ''@b/c@npm:2.0.0'')"
    unfolding e by (auto simp: propertyKey_def)
  have "sampleValues = [] @ ?first # [?second]" unfolding s by simp
  moreover have "propertyKey (Some (js ''a@npm:1.0.0'')) = js ''a@npm:1.0.0''"
    by (simp add: propertyKey_def)
  moreover have "\<forall>d \<in> set [?second]. \<forall>v'. dataAt d PathValue = Inr v' \<longrightarrow>
      propertyKey v' \<noteq> js ''a@npm:1.0.0''"
    by (simp add: propertyKey_def js_def)
  ultimately have rl: "recordedLast (js ''a@npm:1.0.0'') sampleValues (Some (js ''1.0.0''))"
    unfolding recordedLast_def by blast
  have k3: "js ''a@npm:1.0.0'' \<noteq> js ''__proto__''" by (simp add: js_def)
  from version_is_looked_up_by_original_locator [OF g t] obtain versions' where
    v': "indexItems [] sampleValues = Inr versions'" and
    c1: "\<forall>k n. map_of (dependencies ?g) k = Some n \<longrightarrow>
        (\<exists>data locator. namedLast PathValue k sampleValues data \<and> dataAt data PathValue = Inr locator \<and>
           version n = versionsGet versions' (propertyKey locator))" and
    c3: "\<forall>key ver. recordedLast key sampleValues ver \<and> key \<noteq> js ''__proto__'' \<longrightarrow>
        versionsGet versions' key = toVal ver"
    by blast
  from v' i have e': "versions' = ?versions" by simp
  from c3 [rule_format, OF conjI [OF rl k3]]
  have 2: "versionsGet ?versions (js ''a@npm:1.0.0'') = Str (js ''1.0.0'')"
    unfolding e' by (simp add: toVal_def)
  from c1 [rule_format, OF mp]
  have 3: "\<exists>data locator. namedLast PathValue (js ''a'') sampleValues data \<and>
         dataAt data PathValue = Inr locator \<and>
         Str (js ''1.0.0'') = versionsGet ?versions (propertyKey locator)"
    unfolding e' by simp
  from g i n nl2 1 rl 2 3 show ?thesis by blast
qed

text \<open>
  A key that names a member of \<open>Object.prototype\<close> and is not in the index gets that
  member, and an entry named \<^verbatim>\<open>__proto__\<close> leaves no key in the mapping.
\<close>

lemma object_prototype_examples:
  "versionsGet [] (js ''toString'') = Inherited (js ''toString'')"
  "toGraph [Entry (Some (js ''__proto__'')) None (Children (Some (js ''1.0.0'')) None) False]
     = Inr \<lparr>problems = [], dependencies = []\<rparr>"
  by (simp_all add: toGraph_def convertValues_def object_defs js_def)

subsection \<open>When the conversion throws\<close>






text \<open>
  A line that parses to an object with other keys only is kept by the filter as well, and
  the conversion throws on it.
\<close>

lemma info_line_throws:
  "parseLines sampleJsonParse (js ''{\"type\":\"info\"}'') = [Entry None None NoChildren True]"
  "getProdDependencies sampleJsonParse
     (Inr \<lparr>stdout = js ''{\"type\":\"info\"}'', stderr = []\<rparr>) = Inl TypeError"
proof -
  show p: "parseLines sampleJsonParse (js ''{\"type\":\"info\"}'') = [Entry None None NoChildren True]"
    by (simp add: parseLines_def splitLines_def safeJsonParse_def sampleJsonParse_def js_def)
  show "getProdDependencies sampleJsonParse
     (Inr \<lparr>stdout = js ''{\"type\":\"info\"}'', stderr = []\<rparr>) = Inl TypeError"
    by (simp add: getProdDependencies_def p toGraph_def)
qed

subsection \<open>A failed process\<close>

lemma foldl_failed:
  "foldl (\<lambda>failed error. if failed then True else P error) b errors \<longleftrightarrow> b \<or> (\<exists>error \<in> set errors. P error)"
  by (induction errors arbitrary: b) auto

lemma failedOn_iff:
  "failedOn ignored errors \<longleftrightarrow>
     (\<exists>error \<in> set errors. error \<noteq> [] \<and>
        \<not> list_ex (\<lambda>ignoredError. prefix (js ''npm ERR! '' @ ignoredError) error) ignored)"
  unfolding failedOn_def by (simp add: foldl_failed)

lemma catchHandler_recovers:
  assumes "\<forall>line \<in> set (splitOn 0x0A (stderr err)).
             line = [] \<or> list_ex (\<lambda>ignoredError. prefix (js ''npm ERR! '' @ ignoredError) line) ignoredYarnErrors"
    and "stdout err \<noteq> []"
  shows "catchHandler (SpawnError err) = Inr (stdout err)"
proof -
  from assms(1) have "\<not> failedOn ignoredYarnErrors (splitOn 0x0A (stderr err))"
    unfolding failedOn_iff by blast
  with assms(2) show ?thesis by simp
qed

lemma catchHandler_rejects:
  assumes "(\<exists>line \<in> set (splitOn 0x0A (stderr err)). line \<noteq> []) \<or> stdout err = []"
  shows "catchHandler (SpawnError err) = Inl (SpawnError err)"
proof (cases "stdout err = []")
  case True
  then show ?thesis by simp
next
  case False
  with assms obtain line where "line \<in> set (splitOn 0x0A (stderr err))" "line \<noteq> []" by blast
  then have "failedOn ignoredYarnErrors (splitOn 0x0A (stderr err))"
    unfolding failedOn_iff by (auto simp: ignoredYarnErrors_def)
  then show ?thesis by simp
qed

text \<open>
  Claim C7, as amended. When the process fails with an exit code other than zero, every
  line of its stderr is empty or starts with an ignored error, and its stdout is not empty,
  the failure is not propagated: the partial stdout is parsed and converted, and the result
  is that of a process that succeeded with the same output, a graph whenever the
  conversion does not throw. This holds in particular for an empty stderr.
\<close>

theorem spawn_failure_with_benign_stderr_is_recovered:
  "((\<forall>line \<in> set (splitOn 0x0A (stderr err)).
       line = [] \<or> list_ex (\<lambda>ignoredError. prefix (js ''npm ERR! '' @ ignoredError) line) ignoredYarnErrors) \<and>
    stdout err \<noteq> [] \<longrightarrow>
      getProdDependencies jsonParse (Inl (SpawnError err)) = toGraph (parseLines jsonParse (stdout err)) \<and>
      getProdDependencies jsonParse (Inl (SpawnError err)) = getProdDependencies jsonParse (Inr err)) \<and>
   (stderr err = [] \<and> stdout err \<noteq> [] \<longrightarrow>
      getProdDependencies jsonParse (Inl (SpawnError err)) = toGraph (parseLines jsonParse (stdout err)))"
proof (intro conjI impI)
  assume a: "(\<forall>line \<in> set (splitOn 0x0A (stderr err)).
       line = [] \<or> list_ex (\<lambda>ignoredError. prefix (js ''npm ERR! '' @ ignoredError) line) ignoredYarnErrors) \<and>
    stdout err \<noteq> []"
  then have c: "catchHandler (SpawnError err) = Inr (stdout err)"
    using catchHandler_recovers by blast
  then show "getProdDependencies jsonParse (Inl (SpawnError err)) = toGraph (parseLines jsonParse (stdout err))"
    by (simp add: getProdDependencies_def)
  from c show "getProdDependencies jsonParse (Inl (SpawnError err)) = getProdDependencies jsonParse (Inr err)"
    by (simp add: getProdDependencies_def)
next
  assume a: "stderr err = [] \<and> stdout err \<noteq> []"
  then have "\<forall>line \<in> set (splitOn 0x0A (stderr err)).
       line = [] \<or> list_ex (\<lambda>ignoredError. prefix (js ''npm ERR! '' @ ignoredError) line) ignoredYarnErrors"
    by simp
  with a have "catchHandler (SpawnError err) = Inr (stdout err)"
    using catchHandler_recovers by blast
  then show "getProdDependencies jsonParse (Inl (SpawnError err)) = toGraph (parseLines jsonParse (stdout err))"
    by (simp add: getProdDependencies_def)
qed

lemma sample_line_parsed:
  "parseLines sampleJsonParse (js ''{\"value\":\"a@npm:1.0.0\",\"children\":{\"Version\":\"1.0.0\"}}'')
     = [Entry (Some (js ''a@npm:1.0.0'')) None (Children (Some (js ''1.0.0'')) None) False]"
  by (simp add: parseLines_def splitLines_def safeJsonParse_def sampleJsonParse_def js_def)

theorem spawn_failure_with_benign_stderr_is_recovered_witness:
  "getProdDependencies sampleJsonParse
     (Inl (SpawnError \<lparr>stdout = js ''{\"value\":\"a@npm:1.0.0\",\"children\":{\"Version\":\"1.0.0\"}}'',
                       stderr = []\<rparr>))
     = Inr \<lparr>problems = [], dependencies = [(js ''a'', Node (Str (js ''1.0.0'')) [])]\<rparr>
   \<and> getProdDependencies sampleJsonParse
     (Inl (SpawnError \<lparr>stdout = js ''{\"value\":\"a@npm:1.0.0\",\"children\":{\"Version\":\"1.0.0\"}}'',
                       stderr = [0x0A, 0x0A]\<rparr>))
     = Inr \<lparr>problems = [], dependencies = [(js ''a'', Node (Str (js ''1.0.0'')) [])]\<rparr>"
proof -
  let ?out = "js ''{\"value\":\"a@npm:1.0.0\",\"children\":{\"Version\":\"1.0.0\"}}''"
  have g: "toGraph (parseLines sampleJsonParse ?out)
    = Inr \<lparr>problems = [], dependencies = [(js ''a'', Node (Str (js ''1.0.0'')) [])]\<rparr>"
    unfolding sample_line_parsed
    by (simp add: toGraph_def convertValues_def object_defs js_def)
  have ne: "?out \<noteq> []" by (simp add: js_def)
  from spawn_failure_with_benign_stderr_is_recovered
    [of "\<lparr>stdout = ?out, stderr = []\<rparr>" sampleJsonParse] ne
  have 1: "getProdDependencies sampleJsonParse (Inl (SpawnError \<lparr>stdout = ?out, stderr = []\<rparr>))
    = toGraph (parseLines sampleJsonParse ?out)"
    by simp
  have "\<forall>line \<in> set (splitOn 0x0A [0x0A, 0x0A :: jschar]). line = [] \<or>
      list_ex (\<lambda>ignoredError. prefix (js ''npm ERR! '' @ ignoredError) line) ignoredYarnErrors"
    by simp
  with spawn_failure_with_benign_stderr_is_recovered
    [of "\<lparr>stdout = ?out, stderr = [0x0A, 0x0A]\<rparr>" sampleJsonParse] ne
  have 2: "getProdDependencies sampleJsonParse (Inl (SpawnError \<lparr>stdout = ?out, stderr = [0x0A, 0x0A]\<rparr>))
    = toGraph (parseLines sampleJsonParse ?out)"
    by simp
  from 1 2 g show ?thesis by simp
qed

text \<open>
  Claim C7 as stated fails: with an empty stderr and a stdout that is not empty the result
  is an error all the same when the conversion of the recovered output throws.
\<close>

theorem recovered_output_can_still_throw_counterexample:
  "getProdDependencies sampleJsonParse
     (Inl (SpawnError \<lparr>stdout = js ''{\"value\":\"a@npm:1.0.0\"}'', stderr = []\<rparr>)) = Inl TypeError"
proof -
  have p: "parseLines sampleJsonParse (js ''{\"value\":\"a@npm:1.0.0\"}'')
     = [Entry (Some (js ''a@npm:1.0.0'')) None NoChildren False]"
    by (simp add: parseLines_def splitLines_def safeJsonParse_def sampleJsonParse_def js_def)
  have ne: "js ''{\"value\":\"a@npm:1.0.0\"}'' \<noteq> []" by (simp add: js_def)
  have "failedOn ignoredYarnErrors (splitOn 0x0A []) = False"
    by (simp add: failedOn_def)
  with ne p show ?thesis
    by (simp add: getProdDependencies_def toGraph_def)
qed

subsection \<open>Lines that are skipped\<close>

lemma splitOn_not_Nil: "splitOn sep s \<noteq> []"
  by (induction s) (auto split: list.splits)

lemma splitOn_pieces: "\<forall>piece \<in> set (splitOn sep s). sep \<notin> set piece"
proof (induction s)
  case Nil
  then show ?case by simp
next
  case (Cons c s)
  then show ?case
    by (cases "splitOn sep s") auto
qed

lemma splitOn_piece: "sep \<notin> set piece \<Longrightarrow> splitOn sep piece = [piece]"
  by (induction piece) auto

lemma splitOn_append: "sep \<notin> set piece \<Longrightarrow> splitOn sep (piece @ sep # s) = piece # splitOn sep s"
  by (induction piece) auto

lemma splitOn_joinLines:
  "lines \<noteq> [] \<Longrightarrow> \<forall>line \<in> set lines. 0x0A \<notin> set line \<Longrightarrow> splitOn 0x0A (joinLines lines) = lines"
proof (induction lines rule: joinLines.induct)
  case 1
  then show ?case by simp
next
  case (2 line)
  then show ?case by (simp add: splitOn_piece)
next
  case (3 line l ls)
  then show ?case by (simp add: splitOn_append)
qed

text \<open>
  The parsed values are the values of the lines that parse, but for the empty ones: a
  line that does not parse leaves nothing behind.
\<close>

lemma parsed_lines_map_filter:
  "filter (\<lambda>line. \<not> isEmpty line) (map (safeJsonParse jsonParse) lines) =
   filter (\<lambda>v. \<not> isEmpty v) (List.map_filter jsonParse lines)"
  by (induction lines) (auto simp: safeJsonParse_def split: option.splits)

lemma parseLines_map_filter:
  "parseLines jsonParse out =
     filter (\<lambda>v. \<not> isEmpty v) (List.map_filter jsonParse (splitLines out))"
  by (simp add: parseLines_def parsed_lines_map_filter)

lemma map_filter_without_garbage:
  assumes "garbage jsonParse []"
  shows "List.map_filter jsonParse (filter (\<lambda>line. line \<noteq> [] \<and> \<not> garbage jsonParse line) lines) =
         List.map_filter jsonParse lines"
  using assms by (induction lines) (auto simp: garbage_def split: option.splits)

lemma lines_of_withoutGarbage:
  assumes "garbage jsonParse []"
  shows "List.map_filter jsonParse (splitLines (withoutGarbage jsonParse out)) =
         List.map_filter jsonParse (splitLines out)"
proof -
  let ?kept = "filter (\<lambda>line. line \<noteq> [] \<and> \<not> garbage jsonParse line) (splitLines out)"
  show ?thesis
  proof (cases "?kept = []")
    case True
    then have "withoutGarbage jsonParse out = []" by (simp add: withoutGarbage_def)
    then have "List.map_filter jsonParse (splitLines (withoutGarbage jsonParse out)) = []"
      using assms by (simp add: splitLines_def garbage_def)
    moreover from True map_filter_without_garbage [OF assms, of "splitLines out"]
    have "List.map_filter jsonParse (splitLines out) = []" by simp
    ultimately show ?thesis by simp
  next
    case False
    have "\<forall>line \<in> set ?kept. 0x0A \<notin> set line"
      using splitOn_pieces [of "0x0A" out] by (simp add: splitLines_def)
    from splitOn_joinLines [OF False this] have "splitLines (withoutGarbage jsonParse out) = ?kept"
      by (simp add: withoutGarbage_def splitLines_def)
    with map_filter_without_garbage [OF assms, of "splitLines out"] show ?thesis by simp
  qed
qed

text \<open>
  Claim C6. The graph made from an output equals the graph made from the same output with
  its empty lines and its lines of garbage removed, where garbage is a line on which
  \<open>JSON.parse\<close> throws. Such lines are skipped without an error: the parsed values are
  the values of the other lines, in their order, but for the values that are empty; and
  an output of nothing but such lines gives the empty graph. That \<open>JSON.parse\<close> throws
  on the empty line is a fact about the runtime and stands as the hypothesis.
\<close>

theorem garbage_lines_do_not_change_the_graph:
  assumes "jsonParse [] = None"
  shows "getProdDependencies jsonParse (Inr \<lparr>stdout = withoutGarbage jsonParse out, stderr = err\<rparr>) =
         getProdDependencies jsonParse (Inr \<lparr>stdout = out, stderr = err\<rparr>) \<and>
         parseLines jsonParse (withoutGarbage jsonParse out) = parseLines jsonParse out \<and>
         parseLines jsonParse out =
           filter (\<lambda>v. \<not> isEmpty v) (List.map_filter jsonParse (splitLines out)) \<and>
         ((\<forall>line \<in> set (splitLines out). line = [] \<or> garbage jsonParse line) \<longrightarrow>
            getProdDependencies jsonParse (Inr \<lparr>stdout = out, stderr = err\<rparr>) =
              Inr \<lparr>problems = [], dependencies = []\<rparr>)"
proof (intro conjI impI)
  from assms have e: "garbage jsonParse []" by (simp add: garbage_def)
  from lines_of_withoutGarbage [OF e, of out]
  show p: "parseLines jsonParse (withoutGarbage jsonParse out) = parseLines jsonParse out"
    by (simp add: parseLines_map_filter)
  then show "getProdDependencies jsonParse (Inr \<lparr>stdout = withoutGarbage jsonParse out, stderr = err\<rparr>) =
         getProdDependencies jsonParse (Inr \<lparr>stdout = out, stderr = err\<rparr>)"
    by (simp add: getProdDependencies_def)
  show "parseLines jsonParse out =
      filter (\<lambda>v. \<not> isEmpty v) (List.map_filter jsonParse (splitLines out))"
    by (rule parseLines_map_filter)
next
  assume a: "\<forall>line \<in> set (splitLines out). line = [] \<or> garbage jsonParse line"
  then have "filter (\<lambda>line. line \<noteq> [] \<and> \<not> garbage jsonParse line) (splitLines out) = []"
    by (auto simp: filter_empty_conv)
  moreover from assms have "garbage jsonParse []" by (simp add: garbage_def)
  from map_filter_without_garbage [OF this, of "splitLines out"]
  have "List.map_filter jsonParse (filter (\<lambda>line. line \<noteq> [] \<and> \<not> garbage jsonParse line) (splitLines out)) =
      List.map_filter jsonParse (splitLines out)" .
  ultimately have "List.map_filter jsonParse (splitLines out) = []" by simp
  then have "parseLines jsonParse out = []" by (simp add: parseLines_map_filter)
  then show "getProdDependencies jsonParse (Inr \<lparr>stdout = out, stderr = err\<rparr>) =
      Inr \<lparr>problems = [], dependencies = []\<rparr>"
    by (simp add: getProdDependencies_def toGraph_def convertValues_def)
qed

theorem garbage_lines_do_not_change_the_graph_witness:
  "sampleJsonParse [] = None
   \<and> withoutGarbage sampleJsonParse sampleOutput
       = js ''{\"value\":\"a@npm:1.0.0\",\"children\":{\"Version\":\"1.0.0\"}}'' @ [0x0A] @
         js ''null'' @ [0x0A] @ js ''{}''
   \<and> getProdDependencies sampleJsonParse (Inr \<lparr>stdout = sampleOutput, stderr = []\<rparr>)
       = Inr \<lparr>problems = [], dependencies = [(js ''a'', Node (Str (js ''1.0.0'')) [])]\<rparr>
   \<and> getProdDependencies sampleJsonParse
         (Inr \<lparr>stdout = js ''{\"value\":\"a@npm:1.0.0\",\"children\":{\"Version\":\"1.0.0\"}}'' @ [0x0A] @
                         js ''null'' @ [0x0A] @ js ''{}'',
               stderr = []\<rparr>)
       = Inr \<lparr>problems = [], dependencies = [(js ''a'', Node (Str (js ''1.0.0'')) [])]\<rparr>
   \<and> parseLines sampleJsonParse sampleOutput
       = [Entry (Some (js ''a@npm:1.0.0'')) None (Children (Some (js ''1.0.0'')) None) False]
   \<and> getProdDependencies sampleJsonParse (Inr \<lparr>stdout = js ''garbage'' @ [0x0A], stderr = []\<rparr>)
       = Inr \<lparr>problems = [], dependencies = []\<rparr>"
proof -
  let ?line = "js ''{\"value\":\"a@npm:1.0.0\",\"children\":{\"Version\":\"1.0.0\"}}''"
  let ?clean = "?line @ [0x0A] @ js ''null'' @ [0x0A] @ js ''{}''"
  let ?entry = "Entry (Some (js ''a@npm:1.0.0'')) None (Children (Some (js ''1.0.0'')) None) False"
  have s: "sampleJsonParse [] = None"
    by (simp add: sampleJsonParse_def js_def)
  have l: "splitLines sampleOutput = [js ''garbage'', ?line, [], js ''null'', js ''{}'', []]"
    by (simp add: splitLines_def sampleOutput_def js_def)
  have w: "withoutGarbage sampleJsonParse sampleOutput = ?clean"
    unfolding withoutGarbage_def l
    by (simp add: garbage_def sampleJsonParse_def js_def)
  have m: "List.map_filter sampleJsonParse [js ''garbage'', ?line, [], js ''null'', js ''{}'', []]
      = [?entry, Null, Entry None None NoChildren False]"
    by (simp add: sampleJsonParse_def js_def)
  from garbage_lines_do_not_change_the_graph [of sampleJsonParse sampleOutput "[]"] s
  have c: "getProdDependencies sampleJsonParse
        (Inr \<lparr>stdout = withoutGarbage sampleJsonParse sampleOutput, stderr = []\<rparr>) =
      getProdDependencies sampleJsonParse (Inr \<lparr>stdout = sampleOutput, stderr = []\<rparr>) \<and>
      parseLines sampleJsonParse sampleOutput =
        filter (\<lambda>v. \<not> isEmpty v) (List.map_filter sampleJsonParse (splitLines sampleOutput))"
    by blast
  from c have "parseLines sampleJsonParse sampleOutput =
      filter (\<lambda>v. \<not> isEmpty v) (List.map_filter sampleJsonParse (splitLines sampleOutput))"
    by blast
  then have p: "parseLines sampleJsonParse sampleOutput = [?entry]"
    unfolding l m by simp
  have g: "getProdDependencies sampleJsonParse (Inr \<lparr>stdout = sampleOutput, stderr = []\<rparr>)
    = Inr \<lparr>problems = [], dependencies = [(js ''a'', Node (Str (js ''1.0.0'')) [])]\<rparr>"
    by (simp add: getProdDependencies_def p)
       (simp add: toGraph_def convertValues_def object_defs js_def)
  from c have "getProdDependencies sampleJsonParse (Inr \<lparr>stdout = ?clean, stderr = []\<rparr>)
    = getProdDependencies sampleJsonParse (Inr \<lparr>stdout = sampleOutput, stderr = []\<rparr>)"
    unfolding w by blast
  with g have g': "getProdDependencies sampleJsonParse (Inr \<lparr>stdout = ?clean, stderr = []\<rparr>)
    = Inr \<lparr>problems = [], dependencies = [(js ''a'', Node (Str (js ''1.0.0'')) [])]\<rparr>"
    by simp
  have l2: "splitLines (js ''garbage'' @ [0x0A]) = [js ''garbage'', []]"
    by (simp add: splitLines_def js_def)
  have "\<forall>line \<in> set (splitLines (js ''garbage'' @ [0x0A])). line = [] \<or> garbage sampleJsonParse line"
    unfolding l2 by (simp add: garbage_def sampleJsonParse_def js_def)
  with garbage_lines_do_not_change_the_graph [of sampleJsonParse "js ''garbage'' @ [0x0A]" "[]"] s
  have e: "getProdDependencies sampleJsonParse (Inr \<lparr>stdout = js ''garbage'' @ [0x0A], stderr = []\<rparr>)
       = Inr \<lparr>problems = [], dependencies = []\<rparr>"
    by blast
  from s w g g' p e show ?thesis by blast
qed

end
